theory Spec2Isabelle
  imports Main
begin

section \<open>The scanner of src/main.cpp\<close>

text \<open>
  The program is one class, \<open>Lexer\<close>, that reads a file through a \<open>std::ifstream\<close>
  and hands out one \<open>Token\<close> per call of \<open>next_token\<close>. The embedding keeps the
  stream as the code uses it: a get position over the file's bytes and the two state
  flags \<open>eofbit\<close> and \<open>failbit\<close>, with the member functions the code calls
  (\<open>good\<close>, \<open>peek\<close>, \<open>get\<close>, \<open>tellg\<close>, \<open>seekg\<close> and the three-argument
  \<open>get\<close>) following the C++ standard's clauses on unformatted input.

  Modelling decisions:
  \<^item> \<open>int\<close> of the source is 32 bits wide: a value of type \<open>int\<close> is a HOL
    \<open>int\<close> kept in range by \<open>int32\<close>, which is what \<open>static_cast<int>\<close> does to
    a stream position. Signed overflow of \<open>++row\<close>, of \<open>+ 1\<close> and of the
    subtraction in the column is undefined in C++; the model wraps there too, as the
    machine does. Stream positions and sizes (\<open>streampos\<close>, \<open>streamsize\<close>) are 64
    bits wide and are not bounded in the model.
  \<^item> The value \<open>Traits::eof()\<close> of \<open>peek\<close> and \<open>get\<close> is \<open>None\<close>; a byte is
    \<open>Some c\<close>.
  \<^item> The character classes are those of the "C" locale (the program never calls
    \<open>setlocale\<close>): no byte above 127 is in any class.
  \<^item> A read error of the device (\<open>badbit\<close>) is not modelled.
  \<^item> Where the program reads a buffer it has allocated and never written to, the
    bytes it finds are a parameter of the model, \<open>junk\<close>: nothing is assumed about
    them.
\<close>

subsection \<open>Data\<close>

record Location =
  file_path :: string
  row :: int
  col :: int

datatype TokenType =
  IDENTITY | OPEN_PAREN | CLOSE_PAREN | OPEN_CURLY | CLOSE_CURLY
  | SEMICOLON | NUMBER | STRING | RETURN

definition token_type_map :: "char \<rightharpoonup> TokenType" where
  "token_type_map =
     [CHR ''('' \<mapsto> OPEN_PAREN, CHR '')'' \<mapsto> CLOSE_PAREN,
      CHR ''{'' \<mapsto> OPEN_CURLY, CHR ''}'' \<mapsto> CLOSE_CURLY,
      CHR '';'' \<mapsto> SEMICOLON]"

definition is_in_token_map :: "char \<Rightarrow> bool" where
  "is_in_token_map key = (token_type_map key \<noteq> None)"

record Token =
  type :: TokenType
  text' :: "string option"
  number :: "int option"
  location :: Location

subsection \<open>Integers\<close>

text \<open>The value of a 32-bit two's complement \<open>int\<close> that an integer is narrowed to.\<close>

definition int32 :: "int \<Rightarrow> int" where
  "int32 x = (x + 2147483648) mod 4294967296 - 2147483648"

subsection \<open>The character classes of \<open>cctype\<close> and \<open>atoi\<close>\<close>

text \<open>
  The argument is what \<open>peek\<close> returns: \<open>None\<close> is \<open>EOF\<close>, which is in no class.
\<close>

definition isspace :: "char option \<Rightarrow> bool" where
  "isspace c = (case c of None \<Rightarrow> False
     | Some b \<Rightarrow> (let n = (of_char b :: nat) in n = 32 \<or> (9 \<le> n \<and> n \<le> 13)))"

definition isdigit :: "char option \<Rightarrow> bool" where
  "isdigit c = (case c of None \<Rightarrow> False
     | Some b \<Rightarrow> (let n = (of_char b :: nat) in 48 \<le> n \<and> n \<le> 57))"

definition isalpha :: "char option \<Rightarrow> bool" where
  "isalpha c = (case c of None \<Rightarrow> False
     | Some b \<Rightarrow> (let n = (of_char b :: nat) in (65 \<le> n \<and> n \<le> 90) \<or> (97 \<le> n \<and> n \<le> 122)))"

definition isalnum :: "char option \<Rightarrow> bool" where
  "isalnum c = (isalpha c \<or> isdigit c)"

text \<open>
  \<open>atoi\<close>: leading white space, an optional sign, then the digits up to the first
  byte that is not one. A value beyond the range of \<open>int\<close> is undefined in C; the
  model does what the C library of the GNU system does, \<open>(int) strtol(buf, NULL, 10)\<close>:
  \<open>strtol\<close> stops at the ends of the range of a 64-bit \<open>long\<close>, and the cast
  narrows.
\<close>

fun digits_value :: "int \<Rightarrow> string \<Rightarrow> int" where
  "digits_value acc [] = acc"
| "digits_value acc (c # cs) =
     (if isdigit (Some c) then digits_value (acc * 10 + (of_char c - 48)) cs else acc)"

definition strtol :: "string \<Rightarrow> int" where
  "strtol buf =
     (let v = (case dropWhile (\<lambda>c. isspace (Some c)) buf of
                 [] \<Rightarrow> 0
               | c # cs \<Rightarrow>
                   if c = CHR ''-'' then - digits_value 0 cs
                   else if c = CHR ''+'' then digits_value 0 cs
                   else digits_value 0 (c # cs))
      in max (- 9223372036854775808) (min 9223372036854775807 v))"

definition atoi :: "string \<Rightarrow> int" where
  "atoi buf = int32 (strtol buf)"

subsection \<open>The input stream\<close>

text \<open>
  \<open>bytes\<close> is the content of the opened file (empty when the file could not be
  opened, in which case \<open>open\<close> sets \<open>failbit\<close>); \<open>gpos\<close> is the get position.
\<close>

record ifstream =
  bytes :: string
  gpos :: nat
  eofbit :: bool
  failbit :: bool

definition good :: "ifstream \<Rightarrow> bool" where
  "good f = (\<not> eofbit f \<and> \<not> failbit f)"

text \<open>
  Every unformatted input function first constructs a \<open>sentry\<close>: when the stream is
  not good the sentry sets \<open>failbit\<close> and the function does nothing more.
\<close>

definition sentry :: "ifstream \<Rightarrow> bool \<times> ifstream" where
  "sentry f = (if good f then (True, f) else (False, f\<lparr>failbit := True\<rparr>))"

text \<open>\<open>peek()\<close>: the next byte, not extracted; at the end of the file it sets \<open>eofbit\<close>.\<close>

definition peek :: "ifstream \<Rightarrow> char option \<times> ifstream" where
  "peek f =
     (case sentry f of
        (False, f') \<Rightarrow> (None, f')
      | (True, f') \<Rightarrow>
          if gpos f' < length (bytes f') then (Some (bytes f' ! gpos f'), f')
          else (None, f'\<lparr>eofbit := True\<rparr>))"

text \<open>
  \<open>get()\<close>: extracts one byte; at the end of the file it sets \<open>eofbit\<close> and, having
  extracted nothing, \<open>failbit\<close>.
\<close>

definition get :: "ifstream \<Rightarrow> char option \<times> ifstream" where
  "get f =
     (case sentry f of
        (False, f') \<Rightarrow> (None, f')
      | (True, f') \<Rightarrow>
          if gpos f' < length (bytes f')
          then (Some (bytes f' ! gpos f'), f'\<lparr>gpos := gpos f' + 1\<rparr>)
          else (None, f'\<lparr>eofbit := True, failbit := True\<rparr>))"

text \<open>
  \<open>tellg()\<close> is an unformatted input function too: on a stream that is not good
  (also one that has only \<open>eofbit\<close> set) its sentry sets \<open>failbit\<close> and the result
  is \<open>pos_type(-1)\<close>.
\<close>

definition tellg :: "ifstream \<Rightarrow> int \<times> ifstream" where
  "tellg f =
     (case sentry f of
        (False, f') \<Rightarrow> (- 1, f')
      | (True, f') \<Rightarrow> (int (gpos f'), f'))"

text \<open>
  \<open>seekg(pos)\<close> clears \<open>eofbit\<close>, then constructs the sentry; it moves the get
  position only when the stream has not failed. Seeking to \<open>pos_type(-1)\<close> fails.
\<close>

definition seekg :: "int \<Rightarrow> ifstream \<Rightarrow> ifstream" where
  "seekg p f =
     (case sentry (f\<lparr>eofbit := False\<rparr>) of
        (False, f') \<Rightarrow> f'
      | (True, f') \<Rightarrow> if p < 0 then f'\<lparr>failbit := True\<rparr> else f'\<lparr>gpos := nat p\<rparr>)"

text \<open>
  \<open>get(buf, n, '\0')\<close> stores bytes until \<open>n - 1\<close> are stored, or the file ends
  (\<open>eofbit\<close>), or the next byte is the delimiter NUL, which stays in the stream.
  (The order is the standard's: the count is tested first. A library that looks one byte
  ahead once the count is reached sets \<open>eofbit\<close> when the run ends with the file;
  \<open>next_token\<close> never reads back such a run with a positive count.)
  With nothing stored it sets \<open>failbit\<close>. Only when \<open>n > 0\<close> does it write a
  terminating NUL after what it stored: \<open>get_chars\<close> is the loop, and the result of
  \<open>get_buf\<close> is \<open>Some\<close> of the C string then in the buffer, or \<open>None\<close> when the
  call wrote nothing at all into the buffer.
\<close>

fun get_chars :: "nat \<Rightarrow> ifstream \<Rightarrow> string \<times> ifstream" where
  "get_chars 0 f = ([], f)"
| "get_chars (Suc k) f =
     (if gpos f < length (bytes f) then
        (let c = bytes f ! gpos f in
           if c = CHR 0x00 then ([], f)
           else (case get_chars k (f\<lparr>gpos := gpos f + 1\<rparr>) of (cs, f') \<Rightarrow> (c # cs, f')))
      else ([], f\<lparr>eofbit := True\<rparr>))"

definition get_buf :: "int \<Rightarrow> ifstream \<Rightarrow> string option \<times> ifstream" where
  "get_buf n f =
     (case sentry f of
        (False, f') \<Rightarrow> (if 0 < n then Some [] else None, f')
      | (True, f') \<Rightarrow>
          (case get_chars (nat (n - 1)) f' of
             (cs, f'') \<Rightarrow>
               (if 0 < n then Some cs else None,
                if cs = [] then f''\<lparr>failbit := True\<rparr> else f'')))"

subsection \<open>The class \<open>Lexer\<close>\<close>

record Lexer =
  source_path :: string
  source :: ifstream
  line_begin :: int
  row :: int

text \<open>
  The constructor opens the file named \<open>source_path\<close>; \<open>fs\<close> is the file system,
  a map from paths to contents. A file that cannot be opened leaves \<open>failbit\<close> set.
\<close>

definition open_file :: "(string \<rightharpoonup> string) \<Rightarrow> string \<Rightarrow> ifstream" where
  "open_file fs path =
     (case fs path of
        Some content \<Rightarrow> \<lparr>bytes = content, gpos = 0, eofbit = False, failbit = False\<rparr>
      | None \<Rightarrow> \<lparr>bytes = [], gpos = 0, eofbit = False, failbit = True\<rparr>)"

definition new_Lexer :: "(string \<rightharpoonup> string) \<Rightarrow> string \<Rightarrow> Lexer" where
  "new_Lexer fs path =
     \<lparr>source_path = path, source = open_file fs path, line_begin = 0, row = 0\<rparr>"

definition chop_char :: "Lexer \<Rightarrow> Lexer" where
  "chop_char s =
     (if good (source s) then
        (case get (source s) of
           (c, f) \<Rightarrow>
             if c = Some (CHR 0x0A) then
               (case tellg f of
                  (p, f') \<Rightarrow>
                    s\<lparr>source := f', line_begin := int32 (int32 p + 1),
                      row := int32 (Lexer.row s + 1)\<rparr>)
             else s\<lparr>source := f\<rparr>)
      else s)"

text \<open>
  The loops of \<open>trim_left\<close>, \<open>drop_line\<close> and \<open>next_token\<close> all have the shape
  \<open>while (source.good() && P(source.peek())) chop_char();\<close> and differ in \<open>P\<close> only.
\<close>

function chop_while :: "(char option \<Rightarrow> bool) \<Rightarrow> Lexer \<Rightarrow> Lexer" where
  "chop_while P s =
     (if good (source s) then
        (case peek (source s) of
           (c, f) \<Rightarrow>
             if P c then chop_while P (chop_char (s\<lparr>source := f\<rparr>))
             else s\<lparr>source := f\<rparr>)
      else s)"
  by pat_completeness auto

text \<open>
  What bounds every loop: on a good stream, one more than the bytes still ahead of the
  get position; nothing once the stream is not good.
\<close>

definition budget :: "Lexer \<Rightarrow> nat" where
  "budget s =
     (if good (source s) then Suc (length (bytes (source s)) - gpos (source s)) else 0)"

lemma budget_chop_peek:
  "good (source s) \<Longrightarrow> (c, f) = peek (source s) \<Longrightarrow>
   budget (chop_char (s\<lparr>source := f\<rparr>)) < budget s"
  by (auto simp: budget_def chop_char_def peek_def get_def tellg_def sentry_def good_def
      split: if_splits prod.splits)

termination chop_while
  by (relation "measure (\<lambda>(P, s). budget s)") (auto simp: budget_chop_peek)

declare chop_while.simps [simp del]

definition trim_left :: "Lexer \<Rightarrow> Lexer" where
  "trim_left s = chop_while isspace s"

definition drop_line :: "Lexer \<Rightarrow> Lexer" where
  "drop_line s =
     (let s' = chop_while (\<lambda>c. c \<noteq> Some (CHR 0x0A)) s
      in if good (source s') then chop_char s' else s')"

lemma budget_chop_char: "budget (chop_char s) \<le> budget s"
  by (auto simp: budget_def chop_char_def get_def tellg_def sentry_def good_def
      split: if_splits prod.splits)

lemma budget_chop_while: "budget (chop_while P s) \<le> budget s"
proof (induction P s rule: chop_while.induct)
  case (1 P s)
  show ?case
  proof (cases "good (source s)")
    case False
    then show ?thesis by (simp add: chop_while.simps)
  next
    case True
    obtain c f where pk: "(c, f) = peek (source s)" by (metis surj_pair)
    show ?thesis
    proof (cases "P c")
      case True
      with 1 [OF \<open>good (source s)\<close> pk] budget_chop_peek [OF \<open>good (source s)\<close> pk]
      show ?thesis using \<open>good (source s)\<close> pk [symmetric]
        by (subst chop_while.simps) simp
    next
      case False
      then show ?thesis using \<open>good (source s)\<close> pk [symmetric]
        by (subst chop_while.simps)
           (auto simp: budget_def peek_def sentry_def good_def split: if_splits)
    qed
  qed
qed

lemma budget_drop_line_hash:
  assumes g: "good (source s)" and pk: "(c, f) = peek (source s)"
    and c: "c = Some (CHR ''#'')"
  shows "budget (trim_left (drop_line (s\<lparr>source := f\<rparr>))) < budget s"
proof -
  have f: "f = source s" using g pk c
    by (auto simp: peek_def sentry_def split: if_splits)
  let ?P = "\<lambda>c. c \<noteq> Some (CHR 0x0A)"
  have "chop_while ?P s = chop_while ?P (chop_char (s\<lparr>source := f\<rparr>))"
    using g pk [symmetric] c by (subst chop_while.simps) simp
  then have "budget (chop_while ?P s) < budget s"
    using budget_chop_while [of ?P "chop_char (s\<lparr>source := f\<rparr>)"] budget_chop_peek [OF g pk]
    by simp
  then have "budget (drop_line s) < budget s"
    using budget_chop_char [of "chop_while ?P s"] by (simp add: drop_line_def Let_def)
  then show ?thesis
    using budget_chop_while [of isspace "drop_line s"] f by (simp add: trim_left_def)
qed

text \<open>The comment loop at the head of \<open>next_token\<close>.\<close>

function skip_comments :: "Lexer \<Rightarrow> Lexer" where
  "skip_comments s =
     (if good (source s) then
        (case peek (source s) of
           (c, f) \<Rightarrow>
             if c = Some (CHR ''#'') then skip_comments (trim_left (drop_line (s\<lparr>source := f\<rparr>)))
             else s\<lparr>source := f\<rparr>)
      else s)"
  by pat_completeness auto
termination
  by (relation "measure budget") (auto simp: budget_drop_line_hash)

declare skip_comments.simps [simp del]

text \<open>
  The ways a call of \<open>next_token\<close> ends without returning: the \<open>assert\<close> of its last
  line, the exception of \<open>new char[k]\<close> for a negative \<open>k\<close>, and that of
  \<open>token_type_map.at\<close>; and \<open>get\<close> writing past the end of the array it is
  given, which is undefined and where the model stops.
\<close>

datatype error = Not_implemented | Bad_array_new_length | Out_of_range | Buffer_overrun

text \<open>
  The three branches that carry a payload (lines 101 to 108, 123 to 130 and 141 to 148)
  read their run back in the same way:
  \<open>n = tellg() - start + 1; seekg(start); buf = new char[static_cast<int>(n) + 1];\<close>
  \<open>get(buf, n, '\0')\<close>, and then read \<open>buf\<close> as a C string. \<open>new char[k]\<close> throws
  for a negative \<open>k\<close> and does not initialise the array; \<open>get\<close> writes what it
  stores and one NUL, which fits unless the narrowing has changed \<open>n\<close>. When \<open>get\<close> has written nothing into
  it (\<open>n \<le> 0\<close>, which is the case exactly when \<open>tellg\<close> has failed), what the
  program then reads is not determined by the program: that content is the parameter
  \<open>junk\<close>.
\<close>

definition read_run :: "string \<Rightarrow> int \<Rightarrow> Lexer \<Rightarrow> (error + string) \<times> Lexer" where
  "read_run junk start s =
     (case tellg (source s) of
        (e, f1) \<Rightarrow>
          (let n = e - start + 1; f2 = seekg start f1; k = int32 (int32 n + 1) in
             if k < 0 then (Inl Bad_array_new_length, s\<lparr>source := f2\<rparr>)
             else
               (case get_buf n f2 of
                  (b, f3) \<Rightarrow>
                    (case b of
                       None \<Rightarrow> (Inr junk, s\<lparr>source := f3\<rparr>)
                     | Some cs \<Rightarrow>
                         if k < int (length cs) + 1 then (Inl Buffer_overrun, s\<lparr>source := f3\<rparr>)
                         else (Inr cs, s\<lparr>source := f3\<rparr>)))))"

text \<open>\<open>char c = source.peek()\<close>: the narrowing of \<open>EOF\<close> is the byte 255.\<close>

definition to_char :: "char option \<Rightarrow> char" where
  "to_char c = (case c of None \<Rightarrow> CHR 0xFF | Some b \<Rightarrow> b)"

text \<open>
  \<open>next_token\<close> returns \<open>Inr (Some t)\<close> for a token, \<open>Inr None\<close> for the empty
  optional, and \<open>Inl e\<close> when the call does not return.
\<close>

definition next_token :: "string \<Rightarrow> Lexer \<Rightarrow> (error + Token option) \<times> Lexer" where
  "next_token junk s0 =
     (let s1 = skip_comments (trim_left s0) in
      if \<not> good (source s1) then (Inr None, s1)
      else
        (case tellg (source s1) of
           (p, f) \<Rightarrow>
             (let loc = \<lparr>file_path = source_path s1, row = Lexer.row s1,
                         col = int32 (int32 p - line_begin s1)\<rparr>
              in
                (case peek f of
                   (ci, f') \<Rightarrow>
                     (let c = to_char ci; s2 = s1\<lparr>source := f'\<rparr> in
                        if isalpha (Some c) then
                          (case tellg (source s2) of
                             (start, f'') \<Rightarrow>
                               (case read_run junk start
                                       (chop_while isalnum (s2\<lparr>source := f''\<rparr>)) of
                                  (Inl e, s3) \<Rightarrow> (Inl e, s3)
                                | (Inr buf, s3) \<Rightarrow>
                                    (Inr (Some \<lparr>type = IDENTITY, text' = Some buf,
                                                number = None, location = loc\<rparr>), s3)))
                        else if is_in_token_map c then
                          (let s3 = chop_char s2 in
                             (case token_type_map c of
                                None \<Rightarrow> (Inl Out_of_range, s3)
                              | Some t \<Rightarrow>
                                  (Inr (Some \<lparr>type = t, text' = None,
                                              number = None, location = loc\<rparr>), s3)))
                        else if isdigit (Some c) then
                          (case tellg (source s2) of
                             (start, f'') \<Rightarrow>
                               (case read_run junk start
                                       (chop_while isdigit (s2\<lparr>source := f''\<rparr>)) of
                                  (Inl e, s3) \<Rightarrow> (Inl e, s3)
                                | (Inr buf, s3) \<Rightarrow>
                                    (Inr (Some \<lparr>type = NUMBER, text' = None,
                                                number = Some (atoi buf), location = loc\<rparr>), s3)))
                        else if c = CHR 0x22 then
                          (let s3 = chop_char s2 in
                             (case tellg (source s3) of
                                (start, f'') \<Rightarrow>
                                  (case read_run junk start
                                          (chop_while (\<lambda>x. x \<noteq> Some (CHR 0x22))
                                             (s3\<lparr>source := f''\<rparr>)) of
                                     (Inl e, s4) \<Rightarrow> (Inl e, s4)
                                   | (Inr buf, s4) \<Rightarrow>
                                       (Inr (Some \<lparr>type = STRING, text' = Some buf,
                                                   number = None, location = loc\<rparr>),
                                        chop_char s4))))
                        else (Inl Not_implemented, s2))))))"

subsection \<open>What every step preserves\<close>

lemma tellg_good: "good f \<Longrightarrow> tellg f = (int (gpos f), f)"
  by (simp add: tellg_def sentry_def)

lemma peek_good_cases:
  assumes "good f" and "peek f = (c, f')"
  shows "(gpos f < length (bytes f) \<and> c = Some (bytes f ! gpos f) \<and> f' = f)
       \<or> (length (bytes f) \<le> gpos f \<and> c = None \<and> f' = f\<lparr>eofbit := True\<rparr>)"
  using assms by (auto simp: peek_def sentry_def split: if_splits)

text \<open>\<open>same_file s s'\<close>: the same bytes under the same path.\<close>

definition same_file :: "Lexer \<Rightarrow> Lexer \<Rightarrow> bool" where
  "same_file s s' =
     (bytes (source s') = bytes (source s) \<and> source_path s' = source_path s)"

lemma same_file_refl: "same_file s s"
  by (simp add: same_file_def)

lemma same_file_trans: "same_file s s' \<Longrightarrow> same_file s' s'' \<Longrightarrow> same_file s s''"
  by (auto simp: same_file_def)

lemma same_file_chop_char: "same_file s (chop_char s)"
  by (auto simp: same_file_def chop_char_def get_def tellg_def sentry_def split: if_splits prod.splits)

lemma gpos_chop_char: "gpos (source s) \<le> gpos (source (chop_char s))"
  by (auto simp: chop_char_def get_def tellg_def sentry_def split: if_splits prod.splits)

lemma same_file_peek: "peek (source s) = (c, f) \<Longrightarrow> same_file s (s\<lparr>source := f\<rparr>)"
  by (auto simp: same_file_def peek_def sentry_def split: if_splits)

lemma gpos_peek: "peek f = (c, f') \<Longrightarrow> gpos f' = gpos f"
  by (auto simp: peek_def sentry_def split: if_splits)

lemma chop_while_props:
  "same_file s (chop_while P s) \<and> gpos (source s) \<le> gpos (source (chop_while P s))"
proof (induction P s rule: chop_while.induct)
  case (1 P s)
  show ?case
  proof (cases "good (source s)")
    case False
    then show ?thesis by (simp add: chop_while.simps same_file_refl)
  next
    case True
    obtain c f where pk: "peek (source s) = (c, f)" by (metis surj_pair)
    show ?thesis
    proof (cases "P c")
      case True
      let ?s1 = "s\<lparr>source := f\<rparr>"
      have eq: "chop_while P s = chop_while P (chop_char ?s1)"
        using \<open>good (source s)\<close> pk True by (subst chop_while.simps) simp
      have ih: "same_file (chop_char ?s1) (chop_while P (chop_char ?s1))
          \<and> gpos (source (chop_char ?s1)) \<le> gpos (source (chop_while P (chop_char ?s1)))"
        using 1 [OF \<open>good (source s)\<close> pk [symmetric] True] .
      have "same_file s (chop_char ?s1)"
        using same_file_trans [OF same_file_peek [OF pk] same_file_chop_char] .
      moreover have "gpos (source s) \<le> gpos (source (chop_char ?s1))"
        using gpos_chop_char [of ?s1] gpos_peek [OF pk] by simp
      ultimately show ?thesis using ih eq same_file_trans by (metis le_trans)
    next
      case False
      then have "chop_while P s = s\<lparr>source := f\<rparr>"
        using \<open>good (source s)\<close> pk by (subst chop_while.simps) simp
      then show ?thesis using same_file_peek [OF pk] gpos_peek [OF pk] by simp
    qed
  qed
qed

lemmas same_file_chop_while = chop_while_props [THEN conjunct1]
lemmas gpos_chop_while = chop_while_props [THEN conjunct2]

lemma same_file_trim_left: "same_file s (trim_left s)"
  by (simp add: trim_left_def same_file_chop_while)

lemma gpos_trim_left: "gpos (source s) \<le> gpos (source (trim_left s))"
  by (simp add: trim_left_def gpos_chop_while)

lemma same_file_drop_line: "same_file s (drop_line s)"
  using same_file_chop_while [of s "\<lambda>c. c \<noteq> Some (CHR 0x0A)"]
    same_file_trans [OF same_file_chop_while [of s "\<lambda>c. c \<noteq> Some (CHR 0x0A)"] same_file_chop_char]
  by (simp add: drop_line_def Let_def)

lemma gpos_drop_line: "gpos (source s) \<le> gpos (source (drop_line s))"
  using gpos_chop_while [of s "\<lambda>c. c \<noteq> Some (CHR 0x0A)"]
    gpos_chop_char [of "chop_while (\<lambda>c. c \<noteq> Some (CHR 0x0A)) s"]
  by (auto simp: drop_line_def Let_def)

lemma skip_comments_props:
  "same_file s (skip_comments s) \<and> gpos (source s) \<le> gpos (source (skip_comments s))"
proof (induction s rule: skip_comments.induct)
  case (1 s)
  show ?case
  proof (cases "good (source s)")
    case False
    then show ?thesis by (simp add: skip_comments.simps same_file_refl)
  next
    case True
    obtain c f where pk: "peek (source s) = (c, f)" by (metis surj_pair)
    show ?thesis
    proof (cases "c = Some (CHR ''#'')")
      case True
      let ?s1 = "trim_left (drop_line (s\<lparr>source := f\<rparr>))"
      have eq: "skip_comments s = skip_comments ?s1"
        using \<open>good (source s)\<close> pk True by (subst skip_comments.simps) simp
      have ih: "same_file ?s1 (skip_comments ?s1)
          \<and> gpos (source ?s1) \<le> gpos (source (skip_comments ?s1))"
        using 1 [OF \<open>good (source s)\<close> pk [symmetric] True] .
      have "same_file s ?s1"
        using same_file_trans [OF same_file_peek [OF pk] same_file_trans [OF same_file_drop_line same_file_trim_left]] .
      moreover have "gpos (source s) \<le> gpos (source ?s1)"
        using gpos_drop_line [of "s\<lparr>source := f\<rparr>"] gpos_trim_left [of "drop_line (s\<lparr>source := f\<rparr>)"]
          gpos_peek [OF pk] by simp
      ultimately show ?thesis using ih eq same_file_trans by (metis le_trans)
    next
      case False
      then have "skip_comments s = s\<lparr>source := f\<rparr>"
        using \<open>good (source s)\<close> pk by (subst skip_comments.simps) simp
      then show ?thesis using same_file_peek [OF pk] gpos_peek [OF pk] by simp
    qed
  qed
qed


lemmas same_file_skip_comments = skip_comments_props [THEN conjunct1]
lemmas gpos_skip_comments = skip_comments_props [THEN conjunct2]

lemma gpos_get_chars:
  "get_chars k f = (cs, f') \<Longrightarrow> gpos f' = gpos f + length cs \<and> bytes f' = bytes f"
proof (induction k arbitrary: f cs f')
  case 0
  then show ?case by simp
next
  case (Suc k)
  then show ?case
    by (fastforce simp: Let_def split: if_splits prod.splits)
qed

lemma bytes_seekg: "bytes (seekg p f) = bytes f"
  by (auto simp: seekg_def sentry_def split: if_splits)

lemma good_seekg: "good (seekg p f) \<Longrightarrow> 0 \<le> p \<and> gpos (seekg p f) = nat p"
  by (auto simp: seekg_def sentry_def good_def split: if_splits)

lemma get_buf_props:
  assumes "get_buf n f = (b, f')"
  shows "bytes f' = bytes f" and "good f' \<Longrightarrow> good f \<and> gpos f < gpos f'"
proof -
  show "bytes f' = bytes f"
    using assms gpos_get_chars
    by (fastforce simp: get_buf_def sentry_def split: if_splits prod.splits)
  show "good f' \<Longrightarrow> good f \<and> gpos f < gpos f'"
    using assms
    by (auto simp: get_buf_def sentry_def good_def split: if_splits prod.splits
        dest!: gpos_get_chars)
qed

lemma bytes_tellg: "tellg f = (p, f') \<Longrightarrow> bytes f' = bytes f"
  by (auto simp: tellg_def sentry_def split: if_splits)

lemma read_run_props:
  assumes "read_run junk start s = (r, s')"
  shows "same_file s s'" and "Lexer.row s' = Lexer.row s" and "line_begin s' = line_begin s"
    and "r = Inr buf \<Longrightarrow> good (source s') \<Longrightarrow> 0 \<le> start \<and> nat start < gpos (source s')"
proof -
  obtain e f1 where t: "tellg (source s) = (e, f1)" by (metis surj_pair)
  obtain b f3 where g: "get_buf (e - start + 1) (seekg start f1) = (b, f3)" by (metis surj_pair)
  have s': "s' = s\<lparr>source := seekg start f1\<rparr> \<or> s' = s\<lparr>source := f3\<rparr>"
    using assms t g by (auto simp: read_run_def Let_def split: if_splits option.splits)
  have b: "bytes f3 = bytes (source s)"
    using get_buf_props(1) [OF g] bytes_seekg bytes_tellg [OF t] by simp
  show "same_file s s'" using s' b bytes_seekg [of start f1] bytes_tellg [OF t]
    by (auto simp: same_file_def)
  show "Lexer.row s' = Lexer.row s" using s' by auto
  show "line_begin s' = line_begin s" using s' by auto
  show "0 \<le> start \<and> nat start < gpos (source s')" if r: "r = Inr buf" and gd: "good (source s')"
  proof -
    have "s' = s\<lparr>source := f3\<rparr>"
      using assms t g gd r
      by (auto simp: read_run_def Let_def tellg_def sentry_def seekg_def good_def
          split: if_splits option.splits)
    then have "good f3" using gd by simp
    from get_buf_props(2) [OF g this] good_seekg [of start f1]
    show ?thesis using \<open>s' = s\<lparr>source := f3\<rparr>\<close> by auto
  qed
qed


text \<open>The location that \<open>next_token\<close> records in a state (lines 92 and 93).\<close>

definition captured :: "Lexer \<Rightarrow> Location" where
  "captured s = \<lparr>file_path = source_path s, row = Lexer.row s,
                 col = int32 (int32 (int (gpos (source s))) - line_begin s)\<rparr>"

lemma next_token_eof:
  assumes "good (source (skip_comments (trim_left s)))"
    and "length (bytes (source (skip_comments (trim_left s)))) \<le> gpos (source (skip_comments (trim_left s)))"
  shows "fst (next_token junk s) = Inl Not_implemented"
  using assms
  by (simp add: next_token_def Let_def tellg_good peek_def sentry_def to_char_def
      isalpha_def isdigit_def is_in_token_map_def token_type_map_def)

lemma next_token_at:
  assumes s1: "s1 = skip_comments (trim_left s)" and g: "good (source s1)"
    and lt: "gpos (source s1) < length (bytes (source s1))"
    and c: "c = bytes (source s1) ! gpos (source s1)"
    and loc: "loc = captured s1"
  shows "next_token junk s =
    (if isalpha (Some c) then
       (case read_run junk (int (gpos (source s1))) (chop_while isalnum s1) of
          (Inl e, s3) \<Rightarrow> (Inl e, s3)
        | (Inr buf, s3) \<Rightarrow>
            (Inr (Some \<lparr>type = IDENTITY, text' = Some buf, number = None, location = loc\<rparr>), s3))
     else if is_in_token_map c then
       (case token_type_map c of
          None \<Rightarrow> (Inl Out_of_range, chop_char s1)
        | Some t \<Rightarrow>
            (Inr (Some \<lparr>type = t, text' = None, number = None, location = loc\<rparr>), chop_char s1))
     else if isdigit (Some c) then
       (case read_run junk (int (gpos (source s1))) (chop_while isdigit s1) of
          (Inl e, s3) \<Rightarrow> (Inl e, s3)
        | (Inr buf, s3) \<Rightarrow>
            (Inr (Some \<lparr>type = NUMBER, text' = None, number = Some (atoi buf), location = loc\<rparr>), s3))
     else if c = CHR 0x22 then
       (case tellg (source (chop_char s1)) of
          (start, f'') \<Rightarrow>
            (case read_run junk start
                    (chop_while (\<lambda>x. x \<noteq> Some (CHR 0x22)) ((chop_char s1)\<lparr>source := f''\<rparr>)) of
               (Inl e, s4) \<Rightarrow> (Inl e, s4)
             | (Inr buf, s4) \<Rightarrow>
                 (Inr (Some \<lparr>type = STRING, text' = Some buf, number = None, location = loc\<rparr>),
                  chop_char s4)))
     else (Inl Not_implemented, s1))"
  using g lt unfolding s1 c loc captured_def
  by (simp add: next_token_def Let_def tellg_good peek_def sentry_def to_char_def)


lemma chop_char_good:
  "good (source s) \<Longrightarrow> gpos (source s) < length (bytes (source s)) \<Longrightarrow>
   gpos (source (chop_char s)) = Suc (gpos (source s)) \<and> good (source (chop_char s))"
  by (auto simp: chop_char_def get_def tellg_def sentry_def good_def split: if_splits prod.splits)

lemma good_chop_char_rev: "good (source (chop_char s)) \<Longrightarrow> good (source s)"
  by (auto simp: chop_char_def split: if_splits)

lemma next_token_Some:
  assumes nt: "next_token junk s = (Inr (Some t), s')"
  defines "s1 \<equiv> skip_comments (trim_left s)"
  shows "same_file s s1" and "same_file s1 s'" and "good (source s1)"
    and "gpos (source s) \<le> gpos (source s1)"
    and "gpos (source s1) < length (bytes (source s1))"
    and "location t = captured s1"
    and "good (source s') \<Longrightarrow> gpos (source s1) < gpos (source s')"
proof -
  show "same_file s s1"
    unfolding s1_def using same_file_trans [OF same_file_trim_left same_file_skip_comments] .
  show "gpos (source s) \<le> gpos (source s1)"
    unfolding s1_def
    using gpos_trim_left [of s] gpos_skip_comments [of "trim_left s"] by simp
  show g: "good (source s1)"
    using nt unfolding s1_def by (auto simp: next_token_def Let_def split: if_splits)
  show lt: "gpos (source s1) < length (bytes (source s1))"
  proof (rule ccontr)
    assume "\<not> ?thesis"
    then have "fst (next_token junk s) = Inl Not_implemented"
      using g next_token_eof [of s junk] unfolding s1_def by simp
    with nt show False by simp
  qed
  define c where "c = bytes (source s1) ! gpos (source s1)"
  note eq = next_token_at [OF s1_def [THEN meta_eq_to_obj_eq] g lt c_def refl, of junk]
  let ?p = "gpos (source s1)"
  have main: "same_file s1 s' \<and> location t = captured s1 \<and> (good (source s') \<longrightarrow> ?p < gpos (source s'))"
  proof -
    consider (ident) "isalpha (Some c)"
      | (punct) "\<not> isalpha (Some c)" "is_in_token_map c"
      | (num) "\<not> isalpha (Some c)" "\<not> is_in_token_map c" "isdigit (Some c)"
      | (str) "\<not> isalpha (Some c)" "\<not> is_in_token_map c" "\<not> isdigit (Some c)" "c = CHR 0x22"
      | (other) "\<not> isalpha (Some c)" "\<not> is_in_token_map c" "\<not> isdigit (Some c)" "c \<noteq> CHR 0x22"
      by blast
    then show ?thesis
    proof cases
      case ident
      obtain r s3 where rr: "read_run junk (int ?p) (chop_while isalnum s1) = (r, s3)"
        by (metis surj_pair)
      from nt eq ident rr obtain buf where r: "r = Inr buf" and s3: "s3 = s'"
        and t: "location t = captured s1"
        by (auto simp: captured_def split: sum.splits)
      from read_run_props(1) [OF rr] same_file_chop_while [of s1 isalnum]
      have "same_file s1 s'" using s3 same_file_trans by blast
      moreover have "good (source s') \<longrightarrow> ?p < gpos (source s')"
        using read_run_props(4) [OF rr r] s3 by auto
      ultimately show ?thesis using t by simp
    next
      case punct
      from nt eq punct have s': "s' = chop_char s1" and t: "location t = captured s1"
        by (auto simp: captured_def split: option.splits)
      show ?thesis using s' t same_file_chop_char [of s1] chop_char_good [OF g lt] by simp
    next
      case num
      obtain r s3 where rr: "read_run junk (int ?p) (chop_while isdigit s1) = (r, s3)"
        by (metis surj_pair)
      from nt eq num rr obtain buf where r: "r = Inr buf" and s3: "s3 = s'"
        and t: "location t = captured s1"
        by (auto simp: captured_def split: sum.splits)
      from read_run_props(1) [OF rr] same_file_chop_while [of s1 isdigit]
      have "same_file s1 s'" using s3 same_file_trans by blast
      moreover have "good (source s') \<longrightarrow> ?p < gpos (source s')"
        using read_run_props(4) [OF rr r] s3 by auto
      ultimately show ?thesis using t by simp
    next
      case str
      let ?s2 = "chop_char s1"
      have g2: "good (source ?s2)" and p2: "gpos (source ?s2) = Suc ?p"
        using chop_char_good [OF g lt] by simp_all
      have tg: "tellg (source ?s2) = (int (Suc ?p), source ?s2)"
        using tellg_good [OF g2] p2 by simp
      let ?s3 = "chop_while (\<lambda>x. x \<noteq> Some (CHR 0x22)) ?s2"
      obtain r s4 where rr: "read_run junk (int (Suc ?p)) ?s3 = (r, s4)"
        by (metis surj_pair)
      from nt eq str rr tg obtain buf where r: "r = Inr buf" and s': "s' = chop_char s4"
        and t: "location t = captured s1"
        by (auto simp: captured_def split: sum.splits)
      have "same_file s1 ?s3"
        using same_file_trans [OF same_file_chop_char same_file_chop_while] .
      then have "same_file s1 s4" using read_run_props(1) [OF rr] same_file_trans by blast
      then have "same_file s1 s'" using s' same_file_chop_char same_file_trans by blast
      moreover have "good (source s') \<longrightarrow> ?p < gpos (source s')"
      proof
        assume "good (source s')"
        then have "good (source s4)" using s' good_chop_char_rev by blast
        then have "Suc ?p < gpos (source s4)" using read_run_props(4) [OF rr r] by auto
        then show "?p < gpos (source s')" using gpos_chop_char [of s4] s' by simp
      qed
      ultimately show ?thesis using t by simp
    next
      case other
      with nt eq show ?thesis by simp
    qed
  qed
  from main show "same_file s1 s'" and "location t = captured s1"
    and "good (source s') \<Longrightarrow> gpos (source s1) < gpos (source s')" by simp_all
qed

lemma chop_while_not_good: "\<not> good (source s) \<Longrightarrow> chop_while P s = s"
  by (simp add: chop_while.simps)

lemma skip_comments_not_good: "\<not> good (source s) \<Longrightarrow> skip_comments s = s"
  by (simp add: skip_comments.simps)

lemma next_token_not_good: "\<not> good (source s) \<Longrightarrow> next_token junk s = (Inr None, s)"
  by (simp add: next_token_def trim_left_def chop_while_not_good skip_comments_not_good)

lemma next_token_None: "next_token junk s = (Inr None, s') \<Longrightarrow> \<not> good (source s')"
  by (auto simp: next_token_def Let_def split: if_splits prod.splits sum.splits option.splits)

lemma next_token_budget:
  assumes nt: "next_token junk s = (Inr (Some t), s')"
  shows "budget s' < budget s"
proof -
  let ?s1 = "skip_comments (trim_left s)"
  note f = next_token_Some [OF nt]
  have gs: "good (source s)"
    using f(3) nt next_token_not_good [of s junk] by auto
  have b: "bytes (source ?s1) = bytes (source s)" "bytes (source s') = bytes (source s)"
    using f(1) f(2) by (auto simp: same_file_def)
  show ?thesis
  proof (cases "good (source s')")
    case False
    then show ?thesis using gs by (simp add: budget_def)
  next
    case True
    then have "gpos (source s) < gpos (source s')" using f(4) f(7) by simp
    moreover have "gpos (source s) < length (bytes (source s))" using f(4) f(5) b by simp
    ultimately show ?thesis using gs True b by (simp add: budget_def)
  qed
qed

subsection \<open>The loop of \<open>main\<close>\<close>

text \<open>
  \<open>main\<close> calls \<open>next_token\<close> until the optional it returns is empty and hands
  every token to \<open>output_token\<close>. \<open>main_loop\<close> returns those tokens in order,
  and how the loop ended: \<open>None\<close> for the empty optional, \<open>Some e\<close> when a call did
  not return.
\<close>

function main_loop :: "string \<Rightarrow> Lexer \<Rightarrow> Token list \<times> error option" where
  "main_loop junk s =
     (case next_token junk s of
        (Inl e, s') \<Rightarrow> ([], Some e)
      | (Inr None, s') \<Rightarrow> ([], None)
      | (Inr (Some t), s') \<Rightarrow> (case main_loop junk s' of (ts, r) \<Rightarrow> (t # ts, r)))"
  by pat_completeness auto
termination
  by (relation "measure (\<lambda>(junk, s). budget s)") (auto simp: next_token_budget [OF sym])

declare main_loop.simps [simp del]

text \<open>The order of two locations: an earlier row, or the same row and a smaller column.\<close>

definition before :: "Token \<Rightarrow> Token \<Rightarrow> bool" where
  "before a b =
     (Location.row (location a) \<le> Location.row (location b)
      \<and> (Location.row (location a) = Location.row (location b)
           \<longrightarrow> col (location a) < col (location b)))"

lemma main_loop_first:
  "main_loop junk s = (b # ts, r) \<Longrightarrow> \<exists>s'. next_token junk s = (Inr (Some b), s')"
  by (subst (asm) main_loop.simps) (auto split: prod.splits sum.splits option.splits)

lemma successively_nth:
  "successively P xs \<Longrightarrow> Suc i < length xs \<Longrightarrow> P (xs ! i) (xs ! Suc i)"
proof (induction xs arbitrary: i)
  case Nil
  then show ?case by simp
next
  case (Cons x xs)
  show ?case
  proof (cases i)
    case 0
    then show ?thesis using Cons.prems by (cases xs) auto
  next
    case (Suc j)
    then show ?thesis using Cons by (cases xs) auto
  qed
qed

lemma calls_not_good:
  "\<not> good (source s) \<Longrightarrow> ((\<lambda>x. snd (next_token junk x)) ^^ n) s = s"
  by (induction n) (simp_all add: next_token_not_good)

text \<open>What \<open>chop_char\<close> does to a good stream that has a byte ahead.\<close>

lemma chop_char_newline:
  assumes "good (source s)" and "gpos (source s) < length (bytes (source s))"
    and "bytes (source s) ! gpos (source s) = CHR 0x0A"
  shows "chop_char s = s\<lparr>source := (source s)\<lparr>gpos := gpos (source s) + 1\<rparr>,
                         line_begin := int32 (int32 (int (gpos (source s)) + 1) + 1),
                         row := int32 (Lexer.row s + 1)\<rparr>"
  using assms by (simp add: chop_char_def get_def tellg_def sentry_def good_def add.commute)

lemma chop_char_other:
  assumes "good (source s)" and "gpos (source s) < length (bytes (source s))"
    and "bytes (source s) ! gpos (source s) \<noteq> CHR 0x0A"
  shows "chop_char s = s\<lparr>source := (source s)\<lparr>gpos := gpos (source s) + 1\<rparr>\<rparr>"
  using assms by (simp add: chop_char_def get_def tellg_def sentry_def good_def)

subsection \<open>What does not depend on the unwritten buffer\<close>

text \<open>
  Two calls of \<open>next_token\<close> in the same state leave the same state and return
  tokens of the same type at the same location, whatever the unwritten buffers hold;
  so do two runs of the loop of \<open>main\<close>.
\<close>

lemma read_run_junk:
  obtains (err) e s3 where "read_run j1 start s = (Inl e, s3)" "read_run j2 start s = (Inl e, s3)"
  | (ok) b1 b2 s3 where "read_run j1 start s = (Inr b1, s3)" "read_run j2 start s = (Inr b2, s3)"
proof -
  obtain e f1 where t: "tellg (source s) = (e, f1)" by (metis surj_pair)
  obtain b f3 where g: "get_buf (e - start + 1) (seekg start f1) = (b, f3)"
    by (metis surj_pair)
  let ?k = "int32 (int32 (e - start + 1) + 1)"
  show thesis
  proof (cases "?k < 0")
    case True
    then show ?thesis using t err [of Bad_array_new_length] by (simp add: read_run_def Let_def)
  next
    case False
    show ?thesis
    proof (cases b)
      case None
      then show ?thesis using False t g ok by (simp add: read_run_def Let_def)
    next
      case (Some cs)
      show ?thesis
      proof (cases "?k < int (length cs) + 1")
        case True
        then show ?thesis using False Some t g err [of Buffer_overrun]
          by (simp add: read_run_def Let_def)
      next
        case over: False
        then show ?thesis using False Some t g ok by (simp add: read_run_def Let_def)
      qed
    qed
  qed
qed

text \<open>A result of \<open>next_token\<close> without the payload of its token.\<close>

definition outline :: "error + Token option \<Rightarrow> error + (TokenType \<times> Location) option" where
  "outline r = map_sum id (map_option (\<lambda>t. (type t, location t))) r"

lemma next_token_junk:
  "snd (next_token j1 s) = snd (next_token j2 s)
   \<and> outline (fst (next_token j1 s)) = outline (fst (next_token j2 s))"
proof -
  let ?s1 = "skip_comments (trim_left s)"
  consider (exhausted) "\<not> good (source ?s1)"
    | (eof) "good (source ?s1)" "length (bytes (source ?s1)) \<le> gpos (source ?s1)"
    | (byte) "good (source ?s1)" "gpos (source ?s1) < length (bytes (source ?s1))"
    by linarith
  then show ?thesis
  proof cases
    case exhausted
    then show ?thesis by (simp add: next_token_def Let_def)
  next
    case eof
    then have "next_token j1 s = next_token j2 s"
      by (simp add: next_token_def Let_def tellg_good peek_def sentry_def to_char_def
          isalpha_def isdigit_def is_in_token_map_def token_type_map_def)
    then show ?thesis by simp
  next
    case byte
    define c where "c = bytes (source ?s1) ! gpos (source ?s1)"
    note eq1 = next_token_at [OF refl byte c_def refl, of j1]
    note eq2 = next_token_at [OF refl byte c_def refl, of j2]
    consider (ident) "isalpha (Some c)"
      | (punct) "\<not> isalpha (Some c)" "is_in_token_map c"
      | (num) "\<not> isalpha (Some c)" "\<not> is_in_token_map c" "isdigit (Some c)"
      | (str) "\<not> isalpha (Some c)" "\<not> is_in_token_map c" "\<not> isdigit (Some c)" "c = CHR 0x22"
      | (other) "\<not> isalpha (Some c)" "\<not> is_in_token_map c" "\<not> isdigit (Some c)" "c \<noteq> CHR 0x22"
      by blast
    then show ?thesis
    proof cases
      case ident
      show ?thesis
        by (rule read_run_junk [of j1 "int (gpos (source ?s1))" "chop_while isalnum ?s1" j2])
           (simp_all add: eq1 eq2 ident outline_def)
    next
      case punct
      then show ?thesis by (simp add: eq1 eq2)
    next
      case num
      show ?thesis
        by (rule read_run_junk [of j1 "int (gpos (source ?s1))" "chop_while isdigit ?s1" j2])
           (simp_all add: eq1 eq2 num outline_def)
    next
      case str
      obtain start f where tg: "tellg (source (chop_char ?s1)) = (start, f)" by (metis surj_pair)
      show ?thesis
        by (rule read_run_junk [of j1 start
              "chop_while (\<lambda>x. x \<noteq> Some (CHR 0x22)) ((chop_char ?s1)\<lparr>source := f\<rparr>)" j2])
           (simp_all add: eq1 eq2 str tg outline_def isalpha_def isdigit_def
              is_in_token_map_def token_type_map_def)
    next
      case other
      then show ?thesis by (simp add: eq1 eq2)
    qed
  qed
qed

lemma main_loop_junk:
  "map (\<lambda>t. (type t, location t)) (fst (main_loop j1 s))
     = map (\<lambda>t. (type t, location t)) (fst (main_loop j2 s))
   \<and> snd (main_loop j1 s) = snd (main_loop j2 s)"
proof (induction j1 s rule: main_loop.induct)
  case (1 j1 s)
  obtain r1 s1 where n1: "next_token j1 s = (r1, s1)" by (metis surj_pair)
  obtain r2 s2 where n2: "next_token j2 s = (r2, s2)" by (metis surj_pair)
  have s: "s2 = s1" and o: "outline r1 = outline r2"
    using next_token_junk [of j1 s j2] n1 n2 by simp_all
  show ?case
  proof (cases r1)
    case (Inl e)
    then have "r2 = Inl e" using o by (cases r2) (auto simp: outline_def)
    then show ?thesis using Inl n1 n2
      by (subst (1 2) main_loop.simps [of j1]) (subst (1 2) main_loop.simps [of j2], simp)
  next
    case (Inr opt)
    show ?thesis
    proof (cases opt)
      case None
      then have "r2 = Inr None" using o Inr by (cases r2) (auto simp: outline_def)
      then show ?thesis using Inr None n1 n2
        by (subst (1 2) main_loop.simps [of j1]) (subst (1 2) main_loop.simps [of j2], simp)
    next
      case (Some t)
      have "outline r2 = Inr (Some (type t, location t))"
        using o Inr Some by (simp add: outline_def)
      then obtain t' where r2: "r2 = Inr (Some t')" and tt: "type t' = type t"
          "location t' = location t"
        by (cases r2; cases "projr r2") (auto simp: outline_def)
      note ih = 1 [OF n1 [symmetric] Inr Some]
      show ?thesis using Inr Some r2 tt n1 n2 s ih
        by (subst (1 2) main_loop.simps [of j1])
           (subst (1 2) main_loop.simps [of j2], auto split: prod.splits)
    qed
  qed
qed

subsection \<open>A terminated string literal\<close>

text \<open>
  A run of bytes that all satisfy \<open>P\<close>, followed by one that does not, is what
  \<open>chop_while P\<close> consumes; \<open>get\<close> then copies a run without NUL byte for byte.
  So a file made of one string literal, with no double quote and no NUL between its
  quotes, yields one \<open>STRING\<close> token whose text is those bytes as they are: a
  backslash or a newline among them is not treated in any way.
\<close>

lemma peek_byte:
  "good f \<Longrightarrow> gpos f < length (bytes f) \<Longrightarrow> peek f = (Some (bytes f ! gpos f), f)"
  by (simp add: peek_def sentry_def)

lemma peek_end:
  "good f \<Longrightarrow> length (bytes f) \<le> gpos f \<Longrightarrow> peek f = (None, f\<lparr>eofbit := True\<rparr>)"
  by (simp add: peek_def sentry_def)

lemma chop_char_byte:
  assumes "good (source s)" and "gpos (source s) < length (bytes (source s))"
  shows "good (source (chop_char s))"
    and "gpos (source (chop_char s)) = Suc (gpos (source s))"
    and "bytes (source (chop_char s)) = bytes (source s)"
    and "source_path (chop_char s) = source_path s"
  using assms
  by (auto simp: chop_char_def get_def tellg_def sentry_def good_def split: if_splits)

lemma chop_while_run:
  assumes "good (source s)" and "gpos (source s) + k < length (bytes (source s))"
    and "\<forall>i<k. P (Some (bytes (source s) ! (gpos (source s) + i)))"
    and "\<not> P (Some (bytes (source s) ! (gpos (source s) + k)))"
  shows "good (source (chop_while P s)) \<and> gpos (source (chop_while P s)) = gpos (source s) + k
    \<and> bytes (source (chop_while P s)) = bytes (source s)
    \<and> source_path (chop_while P s) = source_path s"
  using assms
proof (induction k arbitrary: s)
  case 0
  then show ?case
    by (subst (1 2 3 4) chop_while.simps) (simp add: peek_byte)
next
  case (Suc k)
  let ?s' = "chop_char s"
  have lt: "gpos (source s) < length (bytes (source s))" using Suc.prems(2) by simp
  have P0: "P (Some (bytes (source s) ! gpos (source s)))" using Suc.prems(3) by force
  have eq: "chop_while P s = chop_while P ?s'"
    using Suc.prems(1) lt P0 by (subst chop_while.simps) (simp add: peek_byte)
  note cc = chop_char_byte [OF Suc.prems(1) lt]
  have "good (source (chop_while P ?s')) \<and> gpos (source (chop_while P ?s')) = gpos (source ?s') + k
    \<and> bytes (source (chop_while P ?s')) = bytes (source ?s')
    \<and> source_path (chop_while P ?s') = source_path ?s'"
  proof (rule Suc.IH)
    show "good (source ?s')" by (rule cc(1))
    show "gpos (source ?s') + k < length (bytes (source ?s'))" using Suc.prems(2) cc by simp
    show "\<forall>i<k. P (Some (bytes (source ?s') ! (gpos (source ?s') + i)))"
      using Suc.prems(3) cc by (metis Suc_less_eq add_Suc_shift)
    show "\<not> P (Some (bytes (source ?s') ! (gpos (source ?s') + k)))"
      using Suc.prems(4) cc by simp
  qed
  then show ?case using eq cc by simp
qed

lemma get_chars_run:
  assumes "gpos f + k \<le> length (bytes f)"
    and "\<forall>i<k. bytes f ! (gpos f + i) \<noteq> CHR 0x00"
  shows "get_chars k f = (take k (drop (gpos f) (bytes f)), f\<lparr>gpos := gpos f + k\<rparr>)"
  using assms
proof (induction k arbitrary: f)
  case 0
  then show ?case by simp
next
  case (Suc k)
  let ?f' = "f\<lparr>gpos := gpos f + 1\<rparr>"
  have lt: "gpos f < length (bytes f)" using Suc.prems(1) by simp
  have nz: "bytes f ! gpos f \<noteq> CHR 0x00" using Suc.prems(2) by force
  have ih: "get_chars k ?f' = (take k (drop (gpos ?f') (bytes ?f')), ?f'\<lparr>gpos := gpos ?f' + k\<rparr>)"
  proof (rule Suc.IH)
    show "gpos ?f' + k \<le> length (bytes ?f')" using Suc.prems(1) by simp
    show "\<forall>i<k. bytes ?f' ! (gpos ?f' + i) \<noteq> CHR 0x00"
      using Suc.prems(2) by (metis Suc_less_eq add_Suc_shift Suc_eq_plus1 ifstream.select_convs(1,2) ifstream.surjective ifstream.update_convs(2))
  qed
  have "take (Suc k) (drop (gpos f) (bytes f)) = bytes f ! gpos f # take k (drop (Suc (gpos f)) (bytes f))"
    using lt by (metis Cons_nth_drop_Suc take_Suc_Cons)
  then show ?case using lt nz ih by (simp add: Let_def)
qed


lemma next_token_at_end:
  assumes "good (source s)" and "length (bytes (source s)) \<le> gpos (source s)"
  shows "fst (next_token junk s) = Inr None"
proof -
  let ?s' = "s\<lparr>source := (source s)\<lparr>eofbit := True\<rparr>\<rparr>"
  have "trim_left s = ?s'"
    using assms unfolding trim_left_def
    by (subst chop_while.simps) (simp add: peek_end isspace_def)
  moreover have "\<not> good (source ?s')" by (simp add: good_def)
  ultimately show ?thesis
    by (simp add: next_token_def Let_def skip_comments_not_good)
qed

lemma main_loop_last:
  assumes "next_token junk s = (Inr (Some t), s')" and "fst (next_token junk s') = Inr None"
  shows "main_loop junk s = ([t], None)"
proof -
  have "main_loop junk s' = ([], None)"
    using assms(2) by (subst main_loop.simps) (auto split: prod.splits)
  then show ?thesis using assms(1) by (subst main_loop.simps) simp
qed

lemma string_literal_verbatim:
  assumes q: "CHR 0x22 \<notin> set body" and z: "CHR 0x00 \<notin> set body"
    and len: "length body < 2147483646"
  shows "main_loop junk (new_Lexer [path \<mapsto> CHR 0x22 # body @ [CHR 0x22]] path) =
     ([\<lparr>type = STRING, text' = Some body, number = None,
        location = \<lparr>file_path = path, row = 0, col = 0\<rparr>\<rparr>], None)"
proof -
  let ?B = "CHR 0x22 # body @ [CHR 0x22]"
  let ?f = "\<lparr>bytes = ?B, gpos = 0, eofbit = False, failbit = False\<rparr>"
  let ?L = "\<lparr>source_path = path, source = ?f, line_begin = 0, row = 0\<rparr>"
  let ?Q = "\<lambda>x. x \<noteq> Some (CHR 0x22)"
  have L: "new_Lexer [path \<mapsto> ?B] path = ?L" by (simp add: new_Lexer_def open_file_def)
  have gL: "good (source ?L)" by (simp add: good_def)
  have tl: "trim_left ?L = ?L"
    unfolding trim_left_def using gL
    by (subst chop_while.simps) (simp add: peek_byte isspace_def)
  have sc: "skip_comments ?L = ?L"
    using gL by (subst skip_comments.simps) (simp add: peek_byte)
  let ?s2 = "chop_char ?L"
  have s2: "?s2 = ?L\<lparr>source := ?f\<lparr>gpos := 1\<rparr>\<rparr>"
    using chop_char_other [of ?L] gL by simp
  have g2: "good (source ?s2)" by (simp add: s2 good_def)
  have t2: "tellg (source ?s2) = (1, source ?s2)"
    using tellg_good [OF g2] by (simp add: s2)
  define s3 where "s3 = chop_while ?Q ?s2"
  have nth: "?B ! (1 + i) = body ! i" if "i < length body" for i
    using that by (simp add: nth_append)
  have nq: "body ! i \<noteq> CHR 0x22" if "i < length body" for i
    using that q by (metis nth_mem)
  have nz: "body ! i \<noteq> CHR 0x00" if "i < length body" for i
    using that z by (metis nth_mem)
  have run: "good (source (chop_while ?Q ?s2))
      \<and> gpos (source (chop_while ?Q ?s2)) = gpos (source ?s2) + length body
      \<and> bytes (source (chop_while ?Q ?s2)) = bytes (source ?s2)
      \<and> source_path (chop_while ?Q ?s2) = source_path ?s2"
  proof (rule chop_while_run [OF g2])
    show "gpos (source ?s2) + length body < length (bytes (source ?s2))" by (simp add: s2)
    show "\<forall>i<length body. Some (bytes (source ?s2) ! (gpos (source ?s2) + i)) \<noteq> Some (CHR 0x22)"
      using nq nth by (auto simp: s2)
    show "\<not> Some (bytes (source ?s2) ! (gpos (source ?s2) + length body)) \<noteq> Some (CHR 0x22)"
      by (simp add: s2 nth_append)
  qed
  then have g3: "good (source s3)" and p3: "gpos (source s3) = 1 + length body"
    and b3: "bytes (source s3) = ?B"
    by (simp_all add: s2 s3_def)
  define f2 where "f2 = (source s3)\<lparr>gpos := 1\<rparr>"
  have sk: "seekg 1 (source s3) = f2"
    using g3 by (auto simp: f2_def seekg_def sentry_def good_def)
  have g2': "good f2" and b2: "bytes f2 = ?B" and p2: "gpos f2 = 1"
    using g3 b3 by (simp_all add: f2_def good_def)
  have gc: "get_chars (length body) f2 = (body, f2\<lparr>gpos := 1 + length body\<rparr>)"
  proof -
    have "get_chars (length body) f2 =
        (take (length body) (drop (gpos f2) (bytes f2)), f2\<lparr>gpos := gpos f2 + length body\<rparr>)"
    proof (rule get_chars_run)
      show "gpos f2 + length body \<le> length (bytes f2)" by (simp add: b2 p2)
      show "\<forall>i<length body. bytes f2 ! (gpos f2 + i) \<noteq> CHR 0x00"
        using nz nth by (auto simp: b2 p2)
    qed
    then show ?thesis by (simp add: b2 p2)
  qed
  define f3 where "f3 = (if body = [] then f2\<lparr>gpos := 1 + length body, failbit := True\<rparr>
             else f2\<lparr>gpos := 1 + length body\<rparr>)"
  have gb: "get_buf (int (length body) + 1) f2 = (Some body, f3)"
    using g2' gc by (simp add: get_buf_def sentry_def f3_def)
  define s4 where "s4 = s3\<lparr>source := f3\<rparr>"
  have tg3: "tellg (source s3) = (int (length body) + 1, source s3)"
    using tellg_good [OF g3] p3 by simp
  have k: "int32 (int32 (int (length body) + 1) + 1) = int (length body) + 2"
    using len by (simp add: int32_def)
  have rr: "read_run junk 1 s3 = (Inr body, s4)"
    by (simp add: read_run_def Let_def tg3 sk gb s4_def k)
  let ?t = "\<lparr>type = STRING, text' = Some body, number = None,
        location = \<lparr>file_path = path, row = 0, col = 0\<rparr>\<rparr>"
  have nt: "next_token junk ?L = (Inr (Some ?t), chop_char s4)"
    using next_token_at [of ?L ?L "CHR 0x22" _ junk, OF _ gL _ _ refl] tl sc t2
      rr [unfolded s3_def]
    by (simp add: isalpha_def isdigit_def is_in_token_map_def token_type_map_def
        captured_def int32_def)
  have g4: "good (source s4) \<longleftrightarrow> body \<noteq> []" and b4: "bytes (source s4) = ?B"
    and p4: "gpos (source s4) = 1 + length body"
    using g2' b2 by (auto simp: s4_def f3_def good_def)
  have last: "fst (next_token junk (chop_char s4)) = Inr None"
  proof (cases "body = []")
    case True
    then have "\<not> good (source s4)" using g4 by simp
    then have "\<not> good (source (chop_char s4))" using good_chop_char_rev by blast
    then show ?thesis by (simp add: next_token_not_good)
  next
    case False
    then have g: "good (source s4)" using g4 by simp
    have p: "gpos (source s4) < length (bytes (source s4))" by (simp add: b4 p4)
    note cc = chop_char_byte [OF g p]
    show ?thesis
    proof (rule next_token_at_end [OF cc(1)])
      show "length (bytes (source (chop_char s4))) \<le> gpos (source (chop_char s4))"
        using cc(2) cc(3) by (simp add: b4 p4)
    qed
  qed
  show ?thesis unfolding L using main_loop_last [OF nt last] .
qed

subsection \<open>Files on which no \<open>int\<close> wraps\<close>

text \<open>
  On a file shorter than \<open>2^30\<close> bytes no value of type \<open>int\<close> leaves its range.
  Columns and \<open>line_begin\<close> are bounded by the size of the file. The row is not
  bounded by the number of newlines in the file: when a string literal holds a NUL,
  \<open>get\<close> stops there, and the bytes between the NUL and the closing quote, which the
  loop over the literal has consumed already, are scanned a second time. No byte is
  scanned a third time, since the second scan meets no double quote before it is past
  the end of the first. \<open>ok m s\<close> says so of a state \<open>s\<close>: \<open>m\<close> is the end of what
  has been scanned, no double quote lies between the cursor and \<open>m\<close>, and the row is
  at most the cursor plus \<open>m\<close>. \<open>moves s s'\<close> relates a state to one reached from
  it by consuming bytes only.
\<close>

lemma int32_id: "- 2147483648 \<le> x \<Longrightarrow> x < 2147483648 \<Longrightarrow> int32 x = x"
  by (simp add: int32_def)

definition ok :: "nat \<Rightarrow> Lexer \<Rightarrow> bool" where
  "ok m s =
     (gpos (source s) \<le> m \<and> m \<le> length (bytes (source s))
      \<and> length (bytes (source s)) < 1073741824
      \<and> (\<forall>i. gpos (source s) \<le> i \<and> i < m \<longrightarrow> bytes (source s) ! i \<noteq> CHR 0x22)
      \<and> 0 \<le> Lexer.row s \<and> Lexer.row s \<le> int (gpos (source s)) + int m
      \<and> 0 \<le> line_begin s \<and> line_begin s \<le> int (length (bytes (source s))) + 1)"

definition moves :: "Lexer \<Rightarrow> Lexer \<Rightarrow> bool" where
  "moves s s' =
     (same_file s s'
      \<and> gpos (source s) \<le> gpos (source s')
      \<and> (gpos (source s) \<le> length (bytes (source s))
           \<longrightarrow> gpos (source s') \<le> length (bytes (source s)))
      \<and> Lexer.row s \<le> Lexer.row s'
      \<and> (Lexer.row s' = Lexer.row s \<longrightarrow> line_begin s' = line_begin s)
      \<and> Lexer.row s' - Lexer.row s \<le> int (gpos (source s')) - int (gpos (source s))
      \<and> (0 \<le> line_begin s \<and> line_begin s \<le> int (length (bytes (source s))) + 1
           \<longrightarrow> 0 \<le> line_begin s' \<and> line_begin s' \<le> int (length (bytes (source s))) + 1))"

lemma moves_refl: "moves s s"
  by (simp add: moves_def same_file_def)

lemma moves_trans:
  assumes "moves s s'" and "moves s' s''"
  shows "moves s s''"
proof -
  have b: "bytes (source s') = bytes (source s)" using assms(1) by (simp add: moves_def same_file_def)
  show ?thesis
    using assms unfolding moves_def same_file_def b by (intro conjI impI) auto
qed

lemma ok_moves:
  assumes "ok m s" and "moves s s'"
  shows "ok (max m (gpos (source s'))) s'"
proof -
  have b: "bytes (source s') = bytes (source s)" using assms(2) by (simp add: moves_def same_file_def)
  have q: "bytes (source s) ! i \<noteq> CHR 0x22"
    if "gpos (source s') \<le> i" and "i < max m (gpos (source s'))" for i
    using that assms by (auto simp: ok_def moves_def)
  show ?thesis
    using assms q unfolding ok_def moves_def b by (intro conjI allI impI) auto
qed

lemma moves_peek: "peek (source s) = (c, f) \<Longrightarrow> moves s (s\<lparr>source := f\<rparr>)"
  by (auto simp: moves_def same_file_def peek_def sentry_def split: if_splits)

lemma moves_chop_char:
  assumes "ok m s"
  shows "moves s (chop_char s)"
proof (cases "good (source s) \<and> gpos (source s) < length (bytes (source s))")
  case False
  then show ?thesis
    by (auto simp: moves_def same_file_def chop_char_def get_def tellg_def sentry_def good_def)
next
  case True
  then have g: "good (source s)" and lt: "gpos (source s) < length (bytes (source s))"
    by simp_all
  show ?thesis
  proof (cases "bytes (source s) ! gpos (source s) = CHR 0x0A")
    case False
    then show ?thesis using chop_char_other [OF g lt] lt by (simp add: moves_def same_file_def)
  next
    case True
    have r: "int32 (Lexer.row s + 1) = Lexer.row s + 1"
      using assms lt by (intro int32_id) (auto simp: ok_def)
    have l: "int32 (int32 (int (gpos (source s)) + 1) + 1) = int (gpos (source s)) + 2"
      using assms lt by (simp add: int32_def ok_def)
    show ?thesis using chop_char_newline [OF g lt True] r l lt
      by (simp add: moves_def same_file_def)
  qed
qed

lemma moves_chop_while: "ok m s \<Longrightarrow> moves s (chop_while P s)"
proof (induction P s arbitrary: m rule: chop_while.induct)
  case (1 P s)
  show ?case
  proof (cases "good (source s)")
    case False
    then show ?thesis by (simp add: chop_while.simps moves_refl)
  next
    case True
    obtain c f where pk: "peek (source s) = (c, f)" by (metis surj_pair)
    let ?s1 = "s\<lparr>source := f\<rparr>"
    have m1: "moves s ?s1" using pk by (rule moves_peek)
    show ?thesis
    proof (cases "P c")
      case Pc: True
      have eq: "chop_while P s = chop_while P (chop_char ?s1)"
        using True pk Pc by (subst chop_while.simps) simp
      have ok1: "ok (max m (gpos (source ?s1))) ?s1" using ok_moves [OF "1.prems" m1] .
      have m2: "moves ?s1 (chop_char ?s1)" using moves_chop_char [OF ok1] .
      have ok2: "ok (max (max m (gpos (source ?s1))) (gpos (source (chop_char ?s1)))) (chop_char ?s1)"
        using ok_moves [OF ok1 m2] .
      have "moves (chop_char ?s1) (chop_while P (chop_char ?s1))"
        using "1.IH" [OF True pk [symmetric] Pc ok2] .
      then show ?thesis using eq m1 m2 moves_trans by metis
    next
      case False
      then have "chop_while P s = ?s1"
        using True pk by (subst chop_while.simps) simp
      then show ?thesis using m1 by simp
    qed
  qed
qed

lemma moves_trim_left: "ok m s \<Longrightarrow> moves s (trim_left s)"
  by (simp add: trim_left_def moves_chop_while)

lemma moves_drop_line:
  assumes "ok m s"
  shows "moves s (drop_line s)"
proof -
  let ?s1 = "chop_while (\<lambda>c. c \<noteq> Some (CHR 0x0A)) s"
  have a: "moves s ?s1" using assms by (rule moves_chop_while)
  have "moves ?s1 (chop_char ?s1)" using ok_moves [OF assms a] by (rule moves_chop_char)
  then have "moves s (chop_char ?s1)" using a moves_trans by blast
  then show ?thesis using a by (simp add: drop_line_def Let_def)
qed

lemma moves_skip_comments: "ok m s \<Longrightarrow> moves s (skip_comments s)"
proof (induction s arbitrary: m rule: skip_comments.induct)
  case (1 s)
  show ?case
  proof (cases "good (source s)")
    case False
    then show ?thesis by (simp add: skip_comments.simps moves_refl)
  next
    case True
    obtain c f where pk: "peek (source s) = (c, f)" by (metis surj_pair)
    let ?s1 = "s\<lparr>source := f\<rparr>"
    have m1: "moves s ?s1" using pk by (rule moves_peek)
    show ?thesis
    proof (cases "c = Some (CHR ''#'')")
      case hash: True
      let ?s2 = "drop_line ?s1" and ?s3 = "trim_left (drop_line ?s1)"
      have eq: "skip_comments s = skip_comments ?s3"
        using True pk hash by (subst skip_comments.simps) simp
      have ok1: "ok (max m (gpos (source ?s1))) ?s1" using ok_moves [OF "1.prems" m1] .
      have m2: "moves ?s1 ?s2" using moves_drop_line [OF ok1] .
      have ok2: "ok (max (max m (gpos (source ?s1))) (gpos (source ?s2))) ?s2"
        using ok_moves [OF ok1 m2] .
      have m3: "moves ?s2 ?s3" using moves_trim_left [OF ok2] .
      have ok3: "ok (max (max (max m (gpos (source ?s1))) (gpos (source ?s2))) (gpos (source ?s3))) ?s3"
        using ok_moves [OF ok2 m3] .
      have "moves ?s3 (skip_comments ?s3)"
        using "1.IH" [OF True pk [symmetric] hash ok3] .
      then show ?thesis using eq m1 m2 m3 moves_trans by metis
    next
      case False
      then have "skip_comments s = ?s1"
        using True pk by (subst skip_comments.simps) simp
      then show ?thesis using m1 by simp
    qed
  qed
qed

lemma chop_char_step:
  "gpos (source (chop_char s)) \<le> Suc (gpos (source s))
   \<and> bytes (source (chop_char s)) = bytes (source s)"
  by (auto simp: chop_char_def get_def tellg_def sentry_def split: if_splits)

lemma chop_while_consumed:
  "gpos (source s) \<le> i \<Longrightarrow> i < gpos (source (chop_while P s)) \<Longrightarrow>
   P (Some (bytes (source s) ! i))"
proof (induction P s rule: chop_while.induct)
  case (1 P s)
  show ?case
  proof (cases "good (source s)")
    case False
    then show ?thesis using "1.prems" by (simp add: chop_while.simps)
  next
    case True
    obtain c f where pk: "peek (source s) = (c, f)" by (metis surj_pair)
    let ?s1 = "s\<lparr>source := f\<rparr>"
    show ?thesis
    proof (cases "P c")
      case Pc: True
      have eq: "chop_while P s = chop_while P (chop_char ?s1)"
        using True pk Pc by (subst chop_while.simps) simp
      note st = chop_char_step [of ?s1]
      have b1: "bytes (source ?s1) = bytes (source s)" and g1: "gpos (source ?s1) = gpos (source s)"
        using pk by (auto simp: peek_def sentry_def split: if_splits)
      show ?thesis
      proof (cases "i = gpos (source s)")
        case here: True
        have "gpos (source s) < length (bytes (source s))"
        proof (rule ccontr)
          assume "\<not> ?thesis"
          then have "\<not> good (source ?s1)"
            using True pk by (auto simp: peek_def sentry_def good_def split: if_splits)
          then have "chop_while P s = ?s1"
            using eq by (simp add: chop_char_def chop_while_not_good)
          then show False using "1.prems" g1 by simp
        qed
        then have "c = Some (bytes (source s) ! gpos (source s))"
          using True pk by (auto simp: peek_byte)
        then show ?thesis using Pc here by simp
      next
        case False
        have gt: "gpos (source (chop_char ?s1)) \<le> i"
          using False "1.prems"(1) st g1 by simp
        have "P (Some (bytes (source (chop_char ?s1)) ! i))"
          using "1.IH" [OF True pk [symmetric] Pc gt] "1.prems"(2) eq by simp
        then show ?thesis using st b1 by simp
      qed
    next
      case False
      then have "chop_while P s = ?s1"
        using True pk by (subst chop_while.simps) simp
      then show ?thesis using "1.prems" pk by (auto simp: peek_def sentry_def split: if_splits)
    qed
  qed
qed

lemma get_chars_shape:
  "get_chars k f = (cs, f') \<Longrightarrow>
   length cs \<le> k
   \<and> (f' = f\<lparr>gpos := gpos f + length cs\<rparr>
        \<or> f' = f\<lparr>gpos := gpos f + length cs, eofbit := True\<rparr>)"
proof (induction k arbitrary: f cs f')
  case 0
  then show ?case by simp
next
  case (Suc k)
  show ?case
  proof (cases "gpos f < length (bytes f) \<and> bytes f ! gpos f \<noteq> CHR 0x00")
    case False
    then show ?thesis using Suc.prems by (auto simp: Let_def split: if_splits)
  next
    case True
    obtain cs1 f1 where r: "get_chars k (f\<lparr>gpos := gpos f + 1\<rparr>) = (cs1, f1)"
      by (metis surj_pair)
    then have cs: "cs = bytes f ! gpos f # cs1" and f': "f' = f1"
      using Suc.prems True by (simp_all add: Let_def)
    from Suc.IH [OF r] show ?thesis using cs f' by auto
  qed
qed

lemma clear_eofbit: "\<not> eofbit f \<Longrightarrow> f\<lparr>eofbit := False\<rparr> = f"
  by (cases f) simp

lemma read_run_back:
  assumes rr: "read_run junk start s = (Inr buf, s')" and gd: "good (source s')"
    and st: "0 \<le> start" "nat start \<le> gpos (source s)"
  shows "good (source s)"
    and "s' = s\<lparr>source := (source s)\<lparr>gpos := gpos (source s')\<rparr>\<rparr>"
    and "nat start < gpos (source s')"
    and "gpos (source s') \<le> gpos (source s)"
proof -
  show g: "good (source s)"
  proof (rule ccontr)
    assume "\<not> good (source s)"
    then have "failbit (source s')"
      using rr
      by (auto simp: read_run_def Let_def tellg_def sentry_def seekg_def get_buf_def good_def
          split: if_splits option.splits prod.splits)
    then show False using gd by (simp add: good_def)
  qed
  let ?e = "gpos (source s)"
  let ?f2 = "(source s)\<lparr>gpos := nat start\<rparr>"
  have tg: "tellg (source s) = (int ?e, source s)" using g by (rule tellg_good)
  have sk: "seekg start (source s) = ?f2"
    using g st(1) by (simp add: seekg_def sentry_def good_def clear_eofbit)
  have g2: "good ?f2" using g by (simp add: good_def)
  obtain cs f3 where gc: "get_chars (?e - nat start) ?f2 = (cs, f3)" by (metis surj_pair)
  have n1: "nat (int ?e - start) = ?e - nat start" and n2: "start \<le> int ?e"
    using st by simp_all
  have gb: "get_buf (int ?e - start + 1) ?f2 =
      (Some cs, if cs = [] then f3\<lparr>failbit := True\<rparr> else f3)"
    using g2 gc by (simp add: get_buf_def sentry_def n1 n2)
  have s': "s' = s\<lparr>source := (if cs = [] then f3\<lparr>failbit := True\<rparr> else f3)\<rparr>"
    using rr tg sk gb by (auto simp: read_run_def Let_def split: if_splits)
  then have ne: "cs \<noteq> []" and g3: "good f3" using gd by (auto simp: good_def split: if_splits)
  note sh = get_chars_shape [OF gc]
  have f3: "f3 = ?f2\<lparr>gpos := nat start + length cs\<rparr>"
    using sh g3 by (auto simp: good_def)
  have src: "source s' = (source s)\<lparr>gpos := nat start + length cs\<rparr>"
    using s' ne f3 by simp
  show "s' = s\<lparr>source := (source s)\<lparr>gpos := gpos (source s')\<rparr>\<rparr>"
    using s' ne f3 by simp
  show "nat start < gpos (source s')" using src ne by simp
  show "gpos (source s') \<le> gpos (source s)" using src sh st by auto
qed

lemma read_run_back_nat:
  assumes "read_run junk (int p) s = (Inr buf, s')" and "good (source s')"
    and "p \<le> gpos (source s)"
  shows "good (source s)"
    and "s' = s\<lparr>source := (source s)\<lparr>gpos := gpos (source s')\<rparr>\<rparr>"
    and "p < gpos (source s')"
    and "gpos (source s') \<le> gpos (source s)"
  using read_run_back [OF assms(1) assms(2)] assms(3) by simp_all

lemma read_run_exact:
  assumes g: "good (source s)" and p: "p < gpos (source s)"
    and le: "gpos (source s) \<le> length (bytes (source s))"
    and sz: "length (bytes (source s)) < 1073741824"
    and nz: "\<forall>i. p \<le> i \<and> i < gpos (source s) \<longrightarrow> bytes (source s) ! i \<noteq> CHR 0x00"
  shows "snd (read_run junk (int p) s) = s"
proof -
  let ?e = "gpos (source s)"
  let ?f2 = "(source s)\<lparr>gpos := p\<rparr>"
  define k where "k = gpos (source s) - p"
  have tg: "tellg (source s) = (int ?e, source s)" using g by (rule tellg_good)
  have sk: "seekg (int p) (source s) = ?f2"
    using g by (simp add: seekg_def sentry_def good_def clear_eofbit)
  have g2: "good ?f2" using g by (simp add: good_def)
  have gc: "get_chars k ?f2 =
      (take k (drop (gpos ?f2) (bytes ?f2)), ?f2\<lparr>gpos := gpos ?f2 + k\<rparr>)"
  proof (rule get_chars_run)
    show "gpos ?f2 + k \<le> length (bytes ?f2)" using p le by (simp add: k_def)
    show "\<forall>i < k. bytes ?f2 ! (gpos ?f2 + i) \<noteq> CHR 0x00" using nz by (auto simp: k_def)
  qed
  have ne: "take k (drop p (bytes (source s))) \<noteq> []" using p le by (simp add: k_def)
  have restored: "?f2\<lparr>gpos := p + k\<rparr> = source s" using p by (cases "source s") (simp add: k_def)
  have n1: "nat (int ?e - int p) = k" and n2: "int p \<le> int ?e" using p by (simp_all add: k_def)
  have gb: "get_buf (int ?e - int p + 1) ?f2 = (Some (take k (drop p (bytes (source s)))), source s)"
    using g2 gc ne restored p by (simp add: get_buf_def sentry_def n1)
  have w1: "int32 (int ?e - int p + 1) = int ?e - int p + 1"
    using p le sz by (intro int32_id) auto
  have w2: "int32 (2 + (int ?e - int p)) = 2 + (int ?e - int p)"
    using p le sz by (intro int32_id) auto
  have len: "length (take k (drop p (bytes (source s)))) = k"
    using p le by (simp add: k_def)
  have ik: "int k = int ?e - int p" using p by (simp add: k_def)
  show ?thesis
    using tg sk gb p by (simp add: read_run_def Let_def w1 w2 len ik del: length_take)
qed

lemma alnum_not_NUL: "isalnum (Some c) \<Longrightarrow> c \<noteq> CHR 0x00"
  by (auto simp: isalnum_def isalpha_def isdigit_def)

lemma digit_not_NUL: "isdigit (Some c) \<Longrightarrow> c \<noteq> CHR 0x00"
  by (auto simp: isdigit_def)

lemma quote_at_mark:
  assumes "ok m s" and "gpos (source s) < length (bytes (source s))"
    and "bytes (source s) ! gpos (source s) = CHR 0x22"
  shows "m = gpos (source s)"
proof (rule ccontr)
  assume "m \<noteq> gpos (source s)"
  then have "gpos (source s) < m" using assms(1) by (simp add: ok_def)
  then show False using assms by (auto simp: ok_def)
qed

lemma ok_same_rows:
  assumes "ok m s" and "bytes (source s') = bytes (source s)"
    and "gpos (source s') = gpos (source s)"
    and "Lexer.row s' = Lexer.row s" and "line_begin s' = line_begin s"
  shows "ok m s'"
  using assms by (simp add: ok_def)

definition rows :: "Lexer \<Rightarrow> Lexer \<Rightarrow> bool" where
  "rows s s' =
     (Lexer.row s \<le> Lexer.row s'
      \<and> (Lexer.row s' = Lexer.row s \<longrightarrow> line_begin s' = line_begin s))"

lemma rows_moves: "moves s s' \<Longrightarrow> rows s s'"
  by (simp add: moves_def rows_def)

lemma rows_trans: "rows s s' \<Longrightarrow> rows s' s'' \<Longrightarrow> rows s s''"
  by (auto simp: rows_def)

lemma next_token_ok:
  assumes okm: "ok m s" and nt: "next_token junk s = (Inr (Some t), s')"
    and gd: "good (source s')"
  defines "s1 \<equiv> skip_comments (trim_left s)"
  shows "\<exists>m1. ok m1 s1" and "\<exists>m'. ok m' s'" and "rows s1 s'"
proof -
  have mt: "moves s (trim_left s)" using okm by (rule moves_trim_left)
  have "moves (trim_left s) s1"
    unfolding s1_def using ok_moves [OF okm mt] by (rule moves_skip_comments)
  then have ms1: "moves s s1" using mt moves_trans by blast
  define m1 where "m1 = max m (gpos (source s1))"
  have ok1: "ok m1 s1" unfolding m1_def using okm ms1 by (rule ok_moves)
  then show "\<exists>m1. ok m1 s1" by blast
  note f = next_token_Some [OF nt, folded s1_def]
  have g: "good (source s1)" and lt: "gpos (source s1) < length (bytes (source s1))"
    using f(3) f(5) by simp_all
  define c where "c = bytes (source s1) ! gpos (source s1)"
  define p where "p = gpos (source s1)"
  note eq = next_token_at [OF s1_def [THEN meta_eq_to_obj_eq] g lt c_def refl, of junk]
  have sz: "length (bytes (source s1)) < 1073741824" using ok1 by (simp add: ok_def)
  have run: "\<exists>m'. ok m' s' \<and> rows s1 s'"
    if rr: "read_run junk (int p) (chop_while P s1) = (Inr buf, s')"
      and nz: "\<And>b. P (Some b) \<Longrightarrow> b \<noteq> CHR 0x00" for P buf
  proof -
    let ?s4 = "chop_while P s1"
    have m4: "moves s1 ?s4" using ok1 by (rule moves_chop_while)
    have ok4: "ok (max m1 (gpos (source ?s4))) ?s4" using ok1 m4 by (rule ok_moves)
    have le: "p \<le> gpos (source ?s4)" using m4 by (simp add: moves_def p_def)
    note b = read_run_back_nat [OF rr gd le]
    have b4: "bytes (source ?s4) = bytes (source s1)" using m4 by (simp add: moves_def same_file_def)
    have "snd (read_run junk (int p) ?s4) = ?s4"
    proof (rule read_run_exact [OF b(1)])
      show "p < gpos (source ?s4)" using b(3) b(4) by simp
      show "gpos (source ?s4) \<le> length (bytes (source ?s4))" using ok4 by (simp add: ok_def)
      show "length (bytes (source ?s4)) < 1073741824" using sz b4 by simp
      show "\<forall>i. p \<le> i \<and> i < gpos (source ?s4) \<longrightarrow> bytes (source ?s4) ! i \<noteq> CHR 0x00"
        using chop_while_consumed [of s1 _ P] nz b4 by (auto simp: p_def)
    qed
    then have "s' = ?s4" using rr by simp
    then show ?thesis using ok4 m4 rows_moves by blast
  qed
  have main: "\<exists>m'. ok m' s' \<and> rows s1 s'"
  proof -
    consider (ident) "isalpha (Some c)"
      | (punct) "\<not> isalpha (Some c)" "is_in_token_map c"
      | (num) "\<not> isalpha (Some c)" "\<not> is_in_token_map c" "isdigit (Some c)"
      | (str) "\<not> isalpha (Some c)" "\<not> is_in_token_map c" "\<not> isdigit (Some c)" "c = CHR 0x22"
      | (other) "\<not> isalpha (Some c)" "\<not> is_in_token_map c" "\<not> isdigit (Some c)" "c \<noteq> CHR 0x22"
      by blast
    then show ?thesis
    proof cases
      case ident
      obtain r s3 where rr: "read_run junk (int p) (chop_while isalnum s1) = (r, s3)"
        by (metis surj_pair)
      from nt eq ident rr obtain buf where "r = Inr buf" and "s3 = s'"
        by (auto simp: p_def split: sum.splits)
      then show ?thesis using run [of isalnum buf] rr alnum_not_NUL by simp
    next
      case punct
      from nt eq punct have s': "s' = chop_char s1"
        by (auto split: option.splits)
      have mv: "moves s1 s'" unfolding s' using ok1 by (rule moves_chop_char)
      show ?thesis using ok_moves [OF ok1 mv] rows_moves [OF mv] by blast
    next
      case num
      obtain r s3 where rr: "read_run junk (int p) (chop_while isdigit s1) = (r, s3)"
        by (metis surj_pair)
      from nt eq num rr obtain buf where "r = Inr buf" and "s3 = s'"
        by (auto simp: p_def split: sum.splits)
      then show ?thesis using run [of isdigit buf] rr digit_not_NUL by simp
    next
      case str
      let ?Q = "\<lambda>x. x \<noteq> Some (CHR 0x22)"
      let ?s2 = "chop_char s1"
      have g2: "good (source ?s2)" and p2: "gpos (source ?s2) = Suc p"
        using chop_char_good [OF g lt] by (simp_all add: p_def)
      have tg: "tellg (source ?s2) = (int (Suc p), source ?s2)"
        using tellg_good [OF g2] p2 by simp
      have mp: "m1 = p"
        using quote_at_mark [OF ok1 lt] str(4) by (simp add: c_def p_def)
      have m2: "moves s1 ?s2" using ok1 by (rule moves_chop_char)
      have ok2: "ok (max m1 (gpos (source ?s2))) ?s2" using ok1 m2 by (rule ok_moves)
      let ?s3 = "chop_while ?Q ?s2"
      have m3: "moves ?s2 ?s3" using ok2 by (rule moves_chop_while)
      have ok3: "ok (max (max m1 (gpos (source ?s2))) (gpos (source ?s3))) ?s3"
        using ok2 m3 by (rule ok_moves)
      have m13: "moves s1 ?s3" using m2 m3 by (rule moves_trans)
      obtain r s4 where rr: "read_run junk (int (Suc p)) ?s3 = (r, s4)"
        by (metis surj_pair)
      from nt eq str rr tg obtain buf where r: "r = Inr buf" and s': "s' = chop_char s4"
        by (auto split: sum.splits)
      have g4: "good (source s4)" using gd s' good_chop_char_rev by blast
      have le: "Suc p \<le> gpos (source ?s3)" using m3 p2 by (simp add: moves_def)
      note b = read_run_back_nat [OF rr [unfolded r] g4 le]
      define e where "e = gpos (source ?s3)"
      define z where "z = gpos (source s4)"
      have s4: "s4 = ?s3\<lparr>source := (source ?s3)\<lparr>gpos := z\<rparr>\<rparr>"
        using b(2) by (simp add: z_def)
      have zb: "Suc p < z" "z \<le> e" using b(3) b(4) by (simp_all add: z_def e_def)
      have b3: "bytes (source ?s3) = bytes (source s1)"
        using m13 by (simp add: moves_def same_file_def)
      have b2: "bytes (source ?s2) = bytes (source s1)"
        using m2 by (simp add: moves_def same_file_def)
      have nq: "bytes (source s1) ! i \<noteq> CHR 0x22" if "z \<le> i" "i < e" for i
      proof -
        have "gpos (source ?s2) \<le> i" and "i < gpos (source ?s3)"
          using that zb p2 by (simp_all add: e_def)
        then have "Some (bytes (source ?s2) ! i) \<noteq> Some (CHR 0x22)"
          by (rule chop_while_consumed [of ?s2 i ?Q])
        then show ?thesis using b2 by simp
      qed
      have r3: "Lexer.row ?s3 \<le> int p + int e"
      proof -
        have "Lexer.row ?s3 - Lexer.row s1 \<le> int e - int p"
          using m13 by (simp add: moves_def e_def p_def)
        moreover have "Lexer.row s1 \<le> int p + int p"
          using ok1 mp by (simp add: ok_def p_def)
        ultimately show ?thesis by linarith
      qed
      have ok4: "ok e s4"
        using ok3 zb r3 nq b3 unfolding ok_def s4 e_def [symmetric]
        by (intro conjI allI impI) auto
      have m5: "moves s4 s'" unfolding s' using ok4 by (rule moves_chop_char)
      have "rows s1 ?s3" using m13 by (rule rows_moves)
      then have "rows s1 s4" by (simp add: rows_def s4)
      then have "rows s1 s'" using rows_moves [OF m5] rows_trans by blast
      then show ?thesis using ok_moves [OF ok4 m5] by blast
    next
      case other
      with nt eq show ?thesis by simp
    qed
  qed
  then show "\<exists>m'. ok m' s'" and "rows s1 s'" by blast+
qed

lemma captured_ok:
  assumes "ok m s" and "gpos (source s) < length (bytes (source s))"
  shows "captured s = \<lparr>file_path = source_path s, row = Lexer.row s,
                        col = int (gpos (source s)) - line_begin s\<rparr>"
proof -
  have a: "int32 (int (gpos (source s))) = int (gpos (source s))"
    using assms by (intro int32_id) (auto simp: ok_def)
  have "int32 (int (gpos (source s)) - line_begin s) = int (gpos (source s)) - line_begin s"
    using assms by (intro int32_id) (auto simp: ok_def)
  then show ?thesis using a by (simp add: captured_def)
qed

lemma ok_start:
  assumes "ok m s"
  shows "\<exists>m1. ok m1 (skip_comments (trim_left s))"
    and "rows s (skip_comments (trim_left s))"
proof -
  have mt: "moves s (trim_left s)" using assms by (rule moves_trim_left)
  have "moves (trim_left s) (skip_comments (trim_left s))"
    using ok_moves [OF assms mt] by (rule moves_skip_comments)
  then have ms: "moves s (skip_comments (trim_left s))" using mt moves_trans by blast
  show "\<exists>m1. ok m1 (skip_comments (trim_left s))" using ok_moves [OF assms ms] by blast
  show "rows s (skip_comments (trim_left s))" using ms by (rule rows_moves)
qed

lemma two_tokens:
  assumes okm: "ok m s" and a: "next_token junk s = (Inr (Some a), s')"
    and b: "next_token junk' s' = (Inr (Some b), s'')"
  shows "before a b" and "\<exists>m'. ok m' s'"
proof -
  let ?a = "skip_comments (trim_left s)" and ?b = "skip_comments (trim_left s')"
  note fa = next_token_Some [OF a] and fb = next_token_Some [OF b]
  have gs': "good (source s')"
    using fb(3) b next_token_not_good [of s' junk'] by auto
  note ka = next_token_ok [OF okm a gs']
  obtain ma where oa: "ok ma ?a" using ka(1) by blast
  obtain m' where o': "ok m' s'" using ka(2) by blast
  then show "\<exists>m'. ok m' s'" by blast
  note kb = ok_start [OF o']
  obtain mb where ob: "ok mb ?b" using kb(1) by blast
  have pos: "gpos (source ?a) < gpos (source ?b)"
    using fa(7) [OF gs'] fb(4) by simp
  have r: "rows ?a ?b" using ka(3) kb(2) by (rule rows_trans)
  have la: "location a = \<lparr>file_path = source_path ?a, row = Lexer.row ?a,
                        col = int (gpos (source ?a)) - line_begin ?a\<rparr>"
    using fa(6) captured_ok [OF oa fa(5)] by simp
  have lb: "location b = \<lparr>file_path = source_path ?b, row = Lexer.row ?b,
                        col = int (gpos (source ?b)) - line_begin ?b\<rparr>"
    using fb(6) captured_ok [OF ob fb(5)] by simp
  show "before a b" using r pos by (auto simp: before_def la lb rows_def)
qed

lemma main_loop_successively:
  "ok m s \<Longrightarrow> successively before (fst (main_loop junk s))"
proof (induction junk s arbitrary: m rule: main_loop.induct)
  case (1 junk s)
  obtain r s' where nt: "next_token junk s = (r, s')" by (metis surj_pair)
  show ?case
  proof (cases r)
    case (Inl e)
    then show ?thesis using nt by (subst main_loop.simps) simp
  next
    case (Inr opt)
    show ?thesis
    proof (cases opt)
      case None
      then show ?thesis using nt Inr by (subst main_loop.simps) simp
    next
      case (Some t)
      obtain ts e where ml: "main_loop junk s' = (ts, e)" by (metis surj_pair)
      have eq: "fst (main_loop junk s) = t # ts"
        using nt Inr Some ml by (subst main_loop.simps) simp
      show ?thesis
      proof (cases ts)
        case Nil
        then show ?thesis using eq by simp
      next
        case (Cons b ts')
        obtain s'' where nb: "next_token junk s' = (Inr (Some b), s'')"
          using main_loop_first ml Cons by blast
        have na: "next_token junk s = (Inr (Some t), s')" using nt Inr Some by simp
        note tt = two_tokens [OF "1.prems" na nb]
        obtain m' where "ok m' s'" using tt(2) by blast
        then have "successively before ts"
          using "1.IH" [OF nt [symmetric] Inr Some] ml by simp
        then show ?thesis using eq tt(1) Cons by simp
      qed
    qed
  qed
qed

lemma new_Lexer_ok:
  assumes "fs path = Some content" and "length content < 1073741824"
  shows "ok 0 (new_Lexer fs path)"
  using assms by (simp add: ok_def new_Lexer_def open_file_def)

subsection \<open>A file of open parentheses\<close>

lemma paren_token:
  assumes g: "good (source s)" and lt: "gpos (source s) < length (bytes (source s))"
    and c: "bytes (source s) ! gpos (source s) = CHR ''(''"
  shows "next_token junk s =
     (Inr (Some \<lparr>type = OPEN_PAREN, text' = None, number = None, location = captured s\<rparr>),
      s\<lparr>source := (source s)\<lparr>gpos := gpos (source s) + 1\<rparr>\<rparr>)"
proof -
  have tl: "trim_left s = s"
    unfolding trim_left_def using g lt c
    by (subst chop_while.simps) (simp add: peek_byte isspace_def)
  have sc: "skip_comments s = s"
    using g lt c by (subst skip_comments.simps) (simp add: peek_byte)
  have cc: "chop_char s = s\<lparr>source := (source s)\<lparr>gpos := gpos (source s) + 1\<rparr>\<rparr>"
    using chop_char_other [OF g lt] c by simp
  show ?thesis
    using next_token_at [of s s "CHR ''(''" "captured s" junk] tl sc g lt c cc
    by (simp add: isalpha_def is_in_token_map_def token_type_map_def)
qed

lemma paren_loop:
  assumes g: "good f" and all: "\<forall>i<length (bytes f). bytes f ! i = CHR ''(''"
    and k: "k \<le> length (bytes f)"
  shows "fst (main_loop junk \<lparr>source_path = pth, source = f\<lparr>gpos := k\<rparr>, line_begin = lb, row = r\<rparr>) =
     map (\<lambda>i. \<lparr>type = OPEN_PAREN, text' = None, number = None,
                 location = \<lparr>file_path = pth, row = r, col = int32 (int32 (int i) - lb)\<rparr>\<rparr>)
       [k..<length (bytes f)]"
  using k
proof (induction "length (bytes f) - k" arbitrary: k)
  case 0
  let ?s = "\<lparr>source_path = pth, source = f\<lparr>gpos := k\<rparr>, line_begin = lb, row = r\<rparr>"
  have "good (source ?s)" using g by (simp add: good_def)
  moreover have "length (bytes (source ?s)) \<le> gpos (source ?s)" using 0 by simp
  ultimately have "fst (next_token junk ?s) = Inr None" by (rule next_token_at_end)
  then have "main_loop junk ?s = ([], None)"
    by (subst main_loop.simps) (auto split: prod.splits)
  then show ?case using 0 by simp
next
  case (Suc d)
  let ?s = "\<lparr>source_path = pth, source = f\<lparr>gpos := k\<rparr>, line_begin = lb, row = r\<rparr>"
  let ?s' = "\<lparr>source_path = pth, source = f\<lparr>gpos := Suc k\<rparr>, line_begin = lb, row = r\<rparr>"
  have lt: "k < length (bytes f)" using Suc.hyps(2) by simp
  have nt: "next_token junk ?s =
     (Inr (Some \<lparr>type = OPEN_PAREN, text' = None, number = None, location = captured ?s\<rparr>), ?s')"
    using paren_token [of ?s junk] g lt all by (simp add: good_def)
  have ih: "fst (main_loop junk ?s') =
     map (\<lambda>i. \<lparr>type = OPEN_PAREN, text' = None, number = None,
                 location = \<lparr>file_path = pth, row = r, col = int32 (int32 (int i) - lb)\<rparr>\<rparr>)
       [Suc k..<length (bytes f)]"
    using Suc.hyps(1) [of "Suc k"] Suc.hyps(2) lt by simp
  have "fst (main_loop junk ?s) =
      \<lparr>type = OPEN_PAREN, text' = None, number = None, location = captured ?s\<rparr>
        # fst (main_loop junk ?s')"
    using nt by (subst main_loop.simps) (simp split: prod.splits)
  then show ?case using ih lt by (simp add: upt_conv_Cons captured_def)
qed

subsection \<open>An unterminated string literal\<close>






subsection \<open>A row that wraps\<close>

text \<open>
  The file made of a double quote, \<open>a\<close>, a NUL, \<open>N\<close> newlines and then \<open>x\<close>
  between two double quotes. The first literal ends at the second quote, its loop counts
  the \<open>N\<close> newlines, and \<open>get\<close> stops at the NUL; the next call skips the same
  newlines as white space and counts them again. With \<open>N = 2^30\<close> the file has
  \<open>2^30 + 6\<close> bytes, and the row of the second token has wrapped.
\<close>

lemma int32_int32_add: "int32 (int32 a + b) = int32 (a + b)"
proof -
  have "(int32 a + b + 2147483648) mod 4294967296 =
        ((a + 2147483648) mod 4294967296 + b) mod 4294967296"
    by (simp add: int32_def)
  also have "\<dots> = (a + 2147483648 + b) mod 4294967296" by (simp add: mod_add_left_eq)
  also have "\<dots> = (a + b + 2147483648) mod 4294967296"
    by (rule arg_cong [where f = "\<lambda>x. x mod 4294967296"]) arith
  finally show ?thesis by (simp add: int32_def)
qed

lemma int32_add_int32: "int32 (b + int32 a) = int32 (b + a)"
  using int32_int32_add [of a b] by (simp add: add.commute)

lemma newline_run:
  assumes "good (source s)" and "0 < k"
    and "gpos (source s) + k < length (bytes (source s))"
    and "\<forall>i<k. bytes (source s) ! (gpos (source s) + i) = CHR 0x0A"
    and "P (Some (CHR 0x0A))"
    and "\<not> P (Some (bytes (source s) ! (gpos (source s) + k)))"
  shows "chop_while P s =
     s\<lparr>source := (source s)\<lparr>gpos := gpos (source s) + k\<rparr>,
       line_begin := int32 (int32 (int (gpos (source s) + k)) + 1),
       row := int32 (Lexer.row s + int k)\<rparr>"
  using assms
proof (induction k arbitrary: s)
  case 0
  then show ?case by simp
next
  case (Suc k)
  let ?g = "gpos (source s)"
  have lt: "?g < length (bytes (source s))" using Suc.prems(3) by simp
  have nl: "bytes (source s) ! ?g = CHR 0x0A" using Suc.prems(4) by force
  let ?s' = "chop_char s"
  have cc: "?s' = s\<lparr>source := (source s)\<lparr>gpos := ?g + 1\<rparr>,
                     line_begin := int32 (int32 (int ?g + 1) + 1),
                     row := int32 (Lexer.row s + 1)\<rparr>"
    using chop_char_newline [OF Suc.prems(1) lt nl] .
  have eq: "chop_while P s = chop_while P ?s'"
    using Suc.prems(1) lt nl Suc.prems(5) by (subst chop_while.simps) (simp add: peek_byte)
  have g': "good (source ?s')" using Suc.prems(1) by (simp add: cc good_def)
  show ?case
  proof (cases "k = 0")
    case True
    have "\<not> P (Some (bytes (source ?s') ! gpos (source ?s')))"
      using Suc.prems(6) True by (simp add: cc)
    moreover have "gpos (source ?s') < length (bytes (source ?s'))"
      using Suc.prems(3) True by (simp add: cc)
    ultimately have "chop_while P ?s' = ?s'"
      using g' by (subst chop_while.simps) (simp add: peek_byte)
    then show ?thesis using eq True by (simp add: cc add.commute)
  next
    case False
    have "chop_while P ?s' =
       ?s'\<lparr>source := (source ?s')\<lparr>gpos := gpos (source ?s') + k\<rparr>,
         line_begin := int32 (int32 (int (gpos (source ?s') + k)) + 1),
         row := int32 (Lexer.row ?s' + int k)\<rparr>"
    proof (rule Suc.IH [OF g'])
      show "0 < k" using False by simp
      show "gpos (source ?s') + k < length (bytes (source ?s'))"
        using Suc.prems(3) by (simp add: cc)
      show "\<forall>i<k. bytes (source ?s') ! (gpos (source ?s') + i) = CHR 0x0A"
        using Suc.prems(4) by (simp add: cc) (metis Suc_less_eq add_Suc_right)
      show "P (Some (CHR 0x0A))" by (rule Suc.prems(5))
      show "\<not> P (Some (bytes (source ?s') ! (gpos (source ?s') + k)))"
        using Suc.prems(6) by (simp add: cc)
    qed
    then show ?thesis
      using eq by (simp add: cc int32_int32_add int32_add_int32 ac_simps)
  qed
qed


lemma chop_while_step:
  assumes "good (source s)" and "gpos (source s) < length (bytes (source s))"
    and "bytes (source s) ! gpos (source s) \<noteq> CHR 0x0A"
    and "P (Some (bytes (source s) ! gpos (source s)))"
  shows "chop_while P s = chop_while P (s\<lparr>source := (source s)\<lparr>gpos := gpos (source s) + 1\<rparr>\<rparr>)"
  using assms chop_char_other [OF assms(1-3)]
  by (subst chop_while.simps) (simp add: peek_byte)

lemma chop_while_stop:
  assumes "good (source s)" and "gpos (source s) < length (bytes (source s))"
    and "\<not> P (Some (bytes (source s) ! gpos (source s)))"
  shows "chop_while P s = s"
  using assms by (subst chop_while.simps) (simp add: peek_byte)

lemma read_run_value:
  assumes g: "good (source s)" and p: "p < gpos (source s)"
    and sz: "gpos (source s) < 2147483646"
    and gc: "get_chars (gpos (source s) - p) ((source s)\<lparr>gpos := p\<rparr>) = (cs, f3)"
    and ne: "cs \<noteq> []"
  shows "read_run junk (int p) s = (Inr cs, s\<lparr>source := f3\<rparr>)"
proof -
  let ?e = "gpos (source s)"
  define n where "n = int ?e - int p + 1"
  have tg: "tellg (source s) = (int ?e, source s)" using g by (rule tellg_good)
  have sk: "seekg (int p) (source s) = (source s)\<lparr>gpos := p\<rparr>"
    using g by (simp add: seekg_def sentry_def good_def clear_eofbit)
  have g2: "good ((source s)\<lparr>gpos := p\<rparr>)" using g by (simp add: good_def)
  have n1: "nat (n - 1) = ?e - p" and n0: "0 < n" using p by (simp_all add: n_def)
  have gb: "get_buf n ((source s)\<lparr>gpos := p\<rparr>) = (Some cs, f3)"
    using g2 gc ne n0 by (simp add: get_buf_def sentry_def n1)
  have k: "int32 (int32 n + 1) = n + 1"
  proof -
    have "int32 n = n" using p sz by (intro int32_id) (auto simp: n_def)
    moreover have "int32 (n + 1) = n + 1" using p sz by (intro int32_id) (auto simp: n_def)
    ultimately show ?thesis by simp
  qed
  have "length cs \<le> ?e - p" using get_chars_shape [OF gc] by simp
  then have fit: "\<not> n + 1 < int (length cs) + 1" using p by (simp add: n_def)
  have n00: "\<not> n + 1 < 0" using n0 by simp
  show ?thesis
    unfolding read_run_def tg prod.case Let_def n_def [symmetric] sk gb k
    using fit n00 by simp
qed

lemma row_wrap_tokens:
  fixes N :: nat
  defines "bs \<equiv> [CHR 0x22, CHR ''a'', CHR 0x00] @ replicate N (CHR 0x0A) @ [CHR 0x22, CHR ''x'', CHR 0x22]"
  assumes N0: "0 < N" and N1: "N < 2147483640"
  shows "map location (fst (main_loop junk (new_Lexer [pth \<mapsto> bs] pth))) =
     [\<lparr>file_path = pth, row = 0, col = 0\<rparr>,
      \<lparr>file_path = pth, row = int32 (2 * int N), col = - 1\<rparr>]"
proof -
  let ?Q = "\<lambda>x. x \<noteq> Some (CHR 0x22)"
  define st where "st k l r =
     \<lparr>source_path = pth, source = \<lparr>bytes = bs, gpos = k, eofbit = False, failbit = False\<rparr>,
      line_begin = l, row = r\<rparr>" for k l r
  have len: "length bs = N + 6" by (simp add: bs_def)
  have b0: "bs ! 0 = CHR 0x22" and b1: "bs ! Suc 0 = CHR ''a''" and b2: "bs ! 2 = CHR 0x00"
    by (simp_all add: bs_def)
  have bn: "bs ! (3 + i) = CHR 0x0A" if "i < N" for i
    using that by (simp add: bs_def nth_append)
  have b3: "bs ! (N + 3) = CHR 0x22" and b4: "bs ! (N + 4) = CHR ''x''"
    and b5: "bs ! (N + 5) = CHR 0x22"
    by (simp_all add: bs_def nth_append nth_Cons')
  have L: "new_Lexer [pth \<mapsto> bs] pth = st 0 0 0"
    by (simp add: new_Lexer_def open_file_def st_def)
  have gd: "good (source (st k l r))" for k l r by (simp add: st_def good_def)
  have src [simp]: "bytes (source (st k l r)) = bs" "gpos (source (st k l r)) = k"
    "source_path (st k l r) = pth" "line_begin (st k l r) = l" "Lexer.row (st k l r) = r"
    for k l r by (simp_all add: st_def)
  have upd: "(st k l r)\<lparr>source := (source (st k l r))\<lparr>gpos := k'\<rparr>\<rparr> = st k' l r" for k k' l r
    by (simp add: st_def)
  have upd3: "(st k l r)\<lparr>source := (source (st k l r))\<lparr>gpos := k'\<rparr>, line_begin := l', row := r'\<rparr>
      = st k' l' r'" for k k' l r l' r'
    by (simp add: st_def)
  define l1 where "l1 = int32 (int32 (int (N + 3)) + 1)"
  have l1: "l1 = int N + 4"
  proof -
    have "int32 (int (N + 3)) = int (N + 3)" using N1 by (intro int32_id) auto
    moreover have "int32 (int (N + 3) + 1) = int (N + 3) + 1" using N1 by (intro int32_id) auto
    ultimately show ?thesis by (simp add: l1_def)
  qed
  have cc: "chop_char (st k l r) = st k' l r"
    if "k' = Suc k" "k < N + 6" "bs ! k \<noteq> CHR 0x0A" for k k' l r
    using chop_char_other [of "st k l r"] that by (simp add: gd len upd)
  have step: "chop_while P (st k l r) = chop_while P (st k' l r)"
    if "k' = Suc k" "k < N + 6" "bs ! k \<noteq> CHR 0x0A" "P (Some (bs ! k))" for P k k' l r
    using chop_while_step [of "st k l r" P] that by (simp add: gd len upd)
  have stop: "chop_while P (st k l r) = st k l r"
    if "k < N + 6" "\<not> P (Some (bs ! k))" for P k l r
    using chop_while_stop [of "st k l r" P] that by (simp add: gd len)
  have nlrun: "chop_while P (st 3 l r) = st (N + 3) l1 (int32 (r + int N))"
    if "P (Some (CHR 0x0A))" "\<not> P (Some (CHR 0x22))" for P l r
  proof -
    have "chop_while P (st 3 l r) =
       (st 3 l r)\<lparr>source := (source (st 3 l r))\<lparr>gpos := gpos (source (st 3 l r)) + N\<rparr>,
         line_begin := int32 (int32 (int (gpos (source (st 3 l r)) + N)) + 1),
         row := int32 (Lexer.row (st 3 l r) + int N)\<rparr>"
    proof (rule newline_run [OF gd N0])
      show "gpos (source (st 3 l r)) + N < length (bytes (source (st 3 l r)))" by (simp add: len)
      show "\<forall>i<N. bytes (source (st 3 l r)) ! (gpos (source (st 3 l r)) + i) = CHR 0x0A"
        using bn by simp
      show "P (Some (CHR 0x0A))" by (rule that(1))
      show "\<not> P (Some (bytes (source (st 3 l r)) ! (gpos (source (st 3 l r)) + N)))"
        using that(2) b3 by (simp add: add.commute)
    qed
    then show ?thesis by (simp add: upd3 l1_def add.commute)
  qed
  have tg: "tellg (source (st k l r)) = (int k, source (st k l r))" for k l r
    using tellg_good [OF gd [of k l r]] by simp
  have cls: "\<not> isalpha (Some (CHR 0x22))" "\<not> is_in_token_map (CHR 0x22)"
    "\<not> isdigit (Some (CHR 0x22))"
    by (simp_all add: isalpha_def isdigit_def is_in_token_map_def token_type_map_def)
  have quote: "next_token junk s =
      (Inr (Some \<lparr>type = STRING, text' = Some buf, number = None, location = captured (st k l r)\<rparr>),
       s'')"
    if "skip_comments (trim_left s) = st k l r" "k < N + 6" "bs ! k = CHR 0x22"
      "chop_while ?Q (st (Suc k) l r) = s3"
      "read_run junk (int (Suc k)) s3 = (Inr buf, s4)" "chop_char s4 = s''"
    for s k l r s3 buf s4 s''
  proof -
    have c: "chop_char (st k l r) = st (Suc k) l r" using that(2,3) by (intro cc) simp_all
    show ?thesis
      using next_token_at [of "st k l r" s "CHR 0x22" "captured (st k l r)" junk] that cls
      by (simp add: gd len c tg)
  qed
  define r1 where "r1 = int32 (int N)"
  define r2 where "r2 = int32 (2 * int N)"
  have r12: "int32 (r1 + int N) = r2" by (simp add: r1_def r2_def int32_int32_add)
  have tl0: "trim_left (st 0 0 0) = st 0 0 0"
    unfolding trim_left_def by (rule stop) (simp_all add: b0 isspace_def)
  have sc0: "skip_comments (st 0 0 0) = st 0 0 0"
    using gd [of 0 0 0] by (subst skip_comments.simps) (simp add: peek_byte len b0)
  have w1: "chop_while ?Q (st (Suc 0) 0 0) = st (N + 3) l1 r1"
  proof -
    have "chop_while ?Q (st (Suc 0) 0 0) = chop_while ?Q (st 2 0 0)"
      by (rule step) (use b1 in simp_all)
    also have "\<dots> = chop_while ?Q (st 3 0 0)"
      by (rule step) (use b2 in simp_all)
    also have "\<dots> = st (N + 3) l1 r1"
      using nlrun [of ?Q 0 0] by (simp add: r1_def)
    finally show ?thesis .
  qed
  have g1: "get_chars (gpos (source (st (N + 3) l1 r1)) - Suc 0)
        ((source (st (N + 3) l1 r1))\<lparr>gpos := Suc 0\<rparr>) =
      (''a'', source (st 2 l1 r1))"
  proof -
    have "N + 3 - Suc 0 = Suc (Suc N)" by simp
    then show ?thesis using b1 b2 by (simp add: st_def len Let_def numeral_2_eq_2)
  qed
  have rr1: "read_run junk (int (Suc 0)) (st (N + 3) l1 r1) = (Inr ''a'', st 2 l1 r1)"
  proof -
    have "read_run junk (int (Suc 0)) (st (N + 3) l1 r1) =
        (Inr ''a'', (st (N + 3) l1 r1)\<lparr>source := source (st 2 l1 r1)\<rparr>)"
      by (rule read_run_value [OF gd _ _ g1]) (use N1 in simp_all)
    then show ?thesis by (simp add: st_def)
  qed
  have n1: "next_token junk (st 0 0 0) =
     (Inr (Some \<lparr>type = STRING, text' = Some ''a'', number = None,
                  location = captured (st 0 0 0)\<rparr>), st 3 l1 r1)"
  proof (rule quote [OF _ _ b0 w1 rr1])
    show "skip_comments (trim_left (st 0 0 0)) = st 0 0 0" by (simp add: tl0 sc0)
    show "0 < N + 6" by simp
    show "chop_char (st 2 l1 r1) = st 3 l1 r1" by (rule cc) (use b2 in simp_all)
  qed
  have tl3: "trim_left (st 3 l1 r1) = st (N + 3) l1 r2"
    unfolding trim_left_def using nlrun [of isspace l1 r1] by (simp add: isspace_def r12)
  have sc3: "skip_comments (st (N + 3) l1 r2) = st (N + 3) l1 r2"
    using gd [of "N + 3" l1 r2] by (subst skip_comments.simps) (simp add: peek_byte len b3)
  have w2: "chop_while ?Q (st (Suc (N + 3)) l1 r2) = st (N + 5) l1 r2"
  proof -
    have "chop_while ?Q (st (Suc (N + 3)) l1 r2) = chop_while ?Q (st (N + 5) l1 r2)"
      by (rule step) (use b4 in \<open>simp_all add: add.commute\<close>)
    also have "\<dots> = st (N + 5) l1 r2"
      by (rule stop) (use b5 in \<open>simp_all add: add.commute\<close>)
    finally show ?thesis .
  qed
  have g2: "get_chars (gpos (source (st (N + 5) l1 r2)) - Suc (N + 3))
        ((source (st (N + 5) l1 r2))\<lparr>gpos := Suc (N + 3)\<rparr>) =
      (''x'', source (st (N + 5) l1 r2))"
  proof -
    have "N + 5 - Suc (N + 3) = Suc 0" by simp
    then show ?thesis using b4 by (simp add: st_def len Let_def add.commute)
  qed
  have rr2: "read_run junk (int (Suc (N + 3))) (st (N + 5) l1 r2) = (Inr ''x'', st (N + 5) l1 r2)"
  proof -
    have "read_run junk (int (Suc (N + 3))) (st (N + 5) l1 r2) =
        (Inr ''x'', (st (N + 5) l1 r2)\<lparr>source := source (st (N + 5) l1 r2)\<rparr>)"
      by (rule read_run_value [OF gd _ _ g2]) (use N1 in \<open>simp_all add: add.commute\<close>)
    then show ?thesis by simp
  qed
  have n2: "next_token junk (st 3 l1 r1) =
     (Inr (Some \<lparr>type = STRING, text' = Some ''x'', number = None,
                  location = captured (st (N + 3) l1 r2)\<rparr>), st (N + 6) l1 r2)"
  proof (rule quote [OF _ _ b3 w2 rr2])
    show "skip_comments (trim_left (st 3 l1 r1)) = st (N + 3) l1 r2" by (simp add: tl3 sc3)
    show "N + 3 < N + 6" by simp
    show "chop_char (st (N + 5) l1 r2) = st (N + 6) l1 r2" by (rule cc) (use b5 in \<open>simp_all add: add.commute\<close>)
  qed
  have n3: "fst (next_token junk (st (N + 6) l1 r2)) = Inr None"
    by (rule next_token_at_end) (simp_all add: gd len)
  have m2: "main_loop junk (st 3 l1 r1) =
      ([\<lparr>type = STRING, text' = Some ''x'', number = None,
         location = captured (st (N + 3) l1 r2)\<rparr>], None)"
    using n2 n3 by (rule main_loop_last)
  have m1: "fst (main_loop junk (st 0 0 0)) =
      [\<lparr>type = STRING, text' = Some ''a'', number = None, location = captured (st 0 0 0)\<rparr>,
       \<lparr>type = STRING, text' = Some ''x'', number = None,
         location = captured (st (N + 3) l1 r2)\<rparr>]"
    using n1 m2 by (subst main_loop.simps) simp
  have ca: "captured (st 0 0 0) = \<lparr>file_path = pth, row = 0, col = 0\<rparr>"
    by (simp add: captured_def int32_def)
  have cb: "captured (st (N + 3) l1 r2) = \<lparr>file_path = pth, row = r2, col = - 1\<rparr>"
  proof -
    have "int32 (int (N + 3)) = int (N + 3)" using N1 by (intro int32_id) auto
    then show ?thesis by (simp add: captured_def l1 int32_def)
  qed
  show ?thesis unfolding L m1 using ca cb by (simp add: r2_def)
qed

lemma row_wrap_example:
  "map location (fst (main_loop junk (new_Lexer
      [pth \<mapsto> [CHR 0x22, CHR ''a'', CHR 0x00] @ replicate 1073741824 (CHR 0x0A)
                  @ [CHR 0x22, CHR ''x'', CHR 0x22]] pth))) =
     [\<lparr>file_path = pth, row = 0, col = 0\<rparr>,
      \<lparr>file_path = pth, row = - 2147483648, col = - 1\<rparr>]"
proof -
  have "int32 (2 * int 1073741824) = - 2147483648" by (simp add: int32_def)
  then show ?thesis using row_wrap_tokens [of 1073741824 junk pth] by simp
qed

section \<open>The claims\<close>

text \<open>
  In every statement below \<open>fs\<close> maps the path to the bytes of the file, and
  \<open>junk\<close> is what a buffer that \<open>get\<close> never wrote to is read as. A newline is
  \<open>CHR 0x0A\<close> and a double quote \<open>CHR 0x22\<close>.
\<close>

text \<open>
  C1. Scanning the two lines \<open># comment\<close> and \<open>x;\<close> yields two tokens, the
  identifier \<open>x\<close> and the semicolon. The identifier is on row 1, but its column is
  \<open>-1\<close>, not 0: \<open>chop_char\<close> has set \<open>line_begin\<close> to 11 where the line begins at
  offset 10.
\<close>

theorem comment_example:
  "main_loop junk (new_Lexer [path \<mapsto> ''# comment'' @ [CHR 0x0A] @ ''x;''] path) =
     ([\<lparr>type = IDENTITY, text' = Some ''x'', number = None,
        location = \<lparr>file_path = path, row = 1, col = - 1\<rparr>\<rparr>,
       \<lparr>type = SEMICOLON, text' = None, number = None,
        location = \<lparr>file_path = path, row = 1, col = 0\<rparr>\<rparr>], None)"
  by (simp add: new_Lexer_def open_file_def) code_simp

text \<open>
  C2. The line-tracking invariant: the column of a token is the cursor at its start
  minus \<open>line_begin\<close> (\<open>captured\<close>, by \<open>next_token_Some\<close>), and the row goes up by one
  with each newline that \<open>chop_char\<close> consumes (\<open>chop_char_newline\<close>,
  \<open>chop_char_other\<close>); but \<open>line_begin\<close> is then two bytes past the newline, not
  one. On a file that starts with a newline, consuming it leaves the cursor at offset 1,
  the first byte of the second line, and \<open>line_begin\<close> at 2.
\<close>

theorem newline_line_begin:
  "chop_char (new_Lexer [path \<mapsto> [CHR 0x0A] @ ''x''] path) =
     \<lparr>source_path = path,
      source = \<lparr>bytes = [CHR 0x0A] @ ''x'', gpos = 1, eofbit = False, failbit = False\<rparr>,
      line_begin = 2, row = 1\<rparr>"
  by (simp add: new_Lexer_def open_file_def) code_simp




lemma late_quote_example:
  "main_loop junk (new_Lexer [path \<mapsto> ''x '' @ [CHR 0x22] @ ''abc''] path) =
     ([\<lparr>type = IDENTITY, text' = Some ''x'', number = None,
        location = \<lparr>file_path = path, row = 0, col = 0\<rparr>\<rparr>], Some Bad_array_new_length)"
  by (simp add: new_Lexer_def open_file_def) code_simp

text \<open>
  C4. On the source made of two double quotes followed by \<open>x;\<close>, \<open>next_token\<close>
  returns a \<open>STRING\<close> token with the empty text; the closing quote, at offset 1, is
  still ahead of the cursor; \<open>failbit\<close> is set; every later call returns the empty
  optional and leaves the state as it is; so the loop of \<open>main\<close> never sees \<open>x\<close> and
  \<open>;\<close>.
\<close>

theorem empty_string_literal:
  "case next_token junk (new_Lexer [path \<mapsto> [CHR 0x22, CHR 0x22] @ ''x;''] path) of
     (r, s) \<Rightarrow>
       r = Inr (Some \<lparr>type = STRING, text' = Some [], number = None,
                      location = \<lparr>file_path = path, row = 0, col = 0\<rparr>\<rparr>)
       \<and> gpos (source s) = 1 \<and> bytes (source s) ! 1 = CHR 0x22
       \<and> failbit (source s)
       \<and> (\<forall>n junk'. next_token junk' (((\<lambda>x. snd (next_token junk' x)) ^^ n) s) = (Inr None, s))
       \<and> main_loop junk (new_Lexer [path \<mapsto> [CHR 0x22, CHR 0x22] @ ''x;''] path) =
           ([\<lparr>type = STRING, text' = Some [], number = None,
              location = \<lparr>file_path = path, row = 0, col = 0\<rparr>\<rparr>], None)"
proof -
  let ?L = "new_Lexer [path \<mapsto> [CHR 0x22, CHR 0x22] @ ''x;''] path"
  let ?s = "\<lparr>source_path = path,
      source = \<lparr>bytes = [CHR 0x22, CHR 0x22] @ ''x;'', gpos = 1, eofbit = False, failbit = True\<rparr>,
      line_begin = 0, row = 0\<rparr>"
  have nt: "next_token junk ?L =
      (Inr (Some \<lparr>type = STRING, text' = Some [], number = None,
                   location = \<lparr>file_path = path, row = 0, col = 0\<rparr>\<rparr>), ?s)"
    by (simp add: new_Lexer_def open_file_def) code_simp
  have ng: "\<not> good (source ?s)" by (simp add: good_def)
  have after: "next_token junk' (((\<lambda>x. snd (next_token junk' x)) ^^ n) ?s) = (Inr None, ?s)"
    for n junk'
    using calls_not_good [OF ng] next_token_not_good [OF ng] by simp
  have ml: "main_loop junk ?L =
           ([\<lparr>type = STRING, text' = Some [], number = None,
              location = \<lparr>file_path = path, row = 0, col = 0\<rparr>\<rparr>], None)"
    by (simp add: new_Lexer_def open_file_def) code_simp
  show ?thesis
    unfolding nt prod.case using after ml by simp
qed

text \<open>
  C5, as stated: of two consecutive tokens of one scan of any source, the second is on a
  later row, or on the same row at a strictly greater column. On a file of \<open>2^31 + 1\<close>
  open parentheses the tokens at offsets \<open>2^31 - 1\<close> and \<open>2^31\<close> are on the same
  row, and the column of the second, narrowed to \<open>int\<close>, is \<open>-2^31\<close>.
\<close>

theorem location_monotonicity_counterexample:
  "length (fst (main_loop [] (new_Lexer [''f'' \<mapsto> replicate 2147483649 (CHR ''('')] ''f''))) = 2147483649
   \<and> location (fst (main_loop [] (new_Lexer [''f'' \<mapsto> replicate 2147483649 (CHR ''('')] ''f'')) ! 2147483647)
       = \<lparr>file_path = ''f'', row = 0, col = 2147483647\<rparr>
   \<and> location (fst (main_loop [] (new_Lexer [''f'' \<mapsto> replicate 2147483649 (CHR ''('')] ''f'')) ! 2147483648)
       = \<lparr>file_path = ''f'', row = 0, col = - 2147483648\<rparr>"
proof -
  define bs where "bs = replicate 2147483649 (CHR ''('')"
  define f where "f = \<lparr>bytes = bs, gpos = 0, eofbit = False, failbit = False\<rparr>"
  have len: "length bs = 2147483649" unfolding bs_def by (simp only: length_replicate)
  have el: "\<forall>i<length (bytes f). bytes f ! i = CHR ''(''"
    unfolding f_def bs_def by simp
  have L: "new_Lexer [''f'' \<mapsto> bs] ''f'' =
      \<lparr>source_path = ''f'', source = f\<lparr>gpos := 0\<rparr>, line_begin = 0, row = 0\<rparr>"
    by (simp add: new_Lexer_def open_file_def f_def)
  have "good f" by (simp add: f_def good_def)
  from paren_loop [OF this el, of 0 "[]" "''f''" 0 0]
  have ts: "fst (main_loop [] (new_Lexer [''f'' \<mapsto> bs] ''f'')) =
     map (\<lambda>i. \<lparr>type = OPEN_PAREN, text' = None, number = None,
                 location = \<lparr>file_path = ''f'', row = 0, col = int32 (int32 (int i))\<rparr>\<rparr>)
       [0..<2147483649]"
    unfolding L by (simp add: f_def len)
  have a: "int32 (int32 (int 2147483647)) = 2147483647" by (simp add: int32_def)
  have b: "int32 (int32 (int 2147483648)) = - 2147483648" by (simp add: int32_def)
  show ?thesis
    unfolding bs_def [symmetric] ts using a b by simp
qed

text \<open>
  C5, amended: of two consecutive tokens of one scan of a source shorter than \<open>2^30\<close>
  bytes, the second is on a later row, or on the same row at a strictly greater column.
  (Below \<open>2^31\<close> bytes no column wraps. The row can count a newline twice, and
  stays in range below \<open>2^30\<close> bytes; with \<open>2^30 + 6\<close> bytes it need not:
  \<open>row_wrap_example\<close>.)
\<close>

theorem location_monotonicity:
  assumes "main_loop junk (new_Lexer fs path) = (ts, r)" and "Suc i < length ts"
    and "fs path = Some content" and "length content < 1073741824"
  shows "Location.row (location (ts ! i)) \<le> Location.row (location (ts ! Suc i))
    \<and> (Location.row (location (ts ! i)) = Location.row (location (ts ! Suc i))
         \<longrightarrow> col (location (ts ! i)) < col (location (ts ! Suc i)))"
proof -
  have "ok 0 (new_Lexer fs path)" using assms(3,4) by (rule new_Lexer_ok)
  then have "successively before ts"
    using main_loop_successively [of 0 "new_Lexer fs path" junk] assms(1) by simp
  then have "before (ts ! i) (ts ! Suc i)"
    using assms(2) by (rule successively_nth)
  then show ?thesis by (simp add: before_def)
qed

theorem location_monotonicity_witness:
  "main_loop [] (new_Lexer [''f'' \<mapsto> ''ab (''] ''f'') =
     ([\<lparr>type = IDENTITY, text' = Some ''ab'', number = None,
        location = \<lparr>file_path = ''f'', row = 0, col = 0\<rparr>\<rparr>,
       \<lparr>type = OPEN_PAREN, text' = None, number = None,
        location = \<lparr>file_path = ''f'', row = 0, col = 3\<rparr>\<rparr>], None)
   \<and> Suc 0 < length [\<lparr>type = IDENTITY, text' = Some ''ab'', number = None,
        location = \<lparr>file_path = ''f'', row = 0, col = 0\<rparr>\<rparr>,
       \<lparr>type = OPEN_PAREN, text' = None, number = None,
        location = \<lparr>file_path = ''f'', row = 0, col = 3\<rparr>\<rparr>]
   \<and> [''f'' \<mapsto> ''ab (''] ''f'' = Some ''ab (''
   \<and> length ''ab ('' < 1073741824
   \<and> (0::int) \<le> 0 \<and> (0::int) < 3"
proof -
  let ?ts = "[\<lparr>type = IDENTITY, text' = Some ''ab'', number = None,
        location = \<lparr>file_path = ''f'', row = 0, col = 0\<rparr>\<rparr>,
       \<lparr>type = OPEN_PAREN, text' = None, number = None,
        location = \<lparr>file_path = ''f'', row = 0, col = 3\<rparr>\<rparr>]"
  have h1: "main_loop [] (new_Lexer [''f'' \<mapsto> ''ab (''] ''f'') = (?ts, None)"
    by code_simp
  have h2: "Suc 0 < length ?ts" by simp
  have h3: "[''f'' \<mapsto> ''ab (''] ''f'' = Some ''ab (''" by simp
  have h4: "length ''ab ('' < 1073741824" by simp
  show ?thesis using location_monotonicity [OF h1 h2 h3 h4] h1 h2 h3 h4 by simp
qed

text \<open>
  C6. Once \<open>next_token\<close> has returned the empty optional, any number of further
  calls return it again, with no error, and the state after them (cursor, flags, row
  and \<open>line_begin\<close>) is the state the first of them left.
\<close>

theorem exhaustion:
  assumes "next_token junk s = (Inr None, s')"
  shows "next_token junk' (((\<lambda>x. snd (next_token junk' x)) ^^ n) s') = (Inr None, s')"
proof -
  have ng: "\<not> good (source s')" using assms by (rule next_token_None)
  show ?thesis using calls_not_good [OF ng] next_token_not_good [OF ng] by simp
qed

theorem exhaustion_witness:
  "next_token [] (new_Lexer [''f'' \<mapsto> []] ''f'') =
     (Inr None,
      \<lparr>source_path = ''f'',
       source = \<lparr>bytes = [], gpos = 0, eofbit = True, failbit = False\<rparr>,
       line_begin = 0, row = 0\<rparr>)
   \<and> next_token ''j'' (((\<lambda>x. snd (next_token ''j'' x)) ^^ 3)
        \<lparr>source_path = ''f'',
         source = \<lparr>bytes = [], gpos = 0, eofbit = True, failbit = False\<rparr>,
         line_begin = 0, row = 0\<rparr>) =
     (Inr None,
      \<lparr>source_path = ''f'',
       source = \<lparr>bytes = [], gpos = 0, eofbit = True, failbit = False\<rparr>,
       line_begin = 0, row = 0\<rparr>)"
proof -
  have h: "next_token [] (new_Lexer [''f'' \<mapsto> []] ''f'') =
     (Inr None,
      \<lparr>source_path = ''f'',
       source = \<lparr>bytes = [], gpos = 0, eofbit = True, failbit = False\<rparr>,
       line_begin = 0, row = 0\<rparr>)"
    by code_simp
  show ?thesis using exhaustion [OF h, of "''j''" 3] h by simp
qed

text \<open>
  C7. A token that \<open>next_token\<close> returns carries a text and no number when its type
  is \<open>IDENTITY\<close> or \<open>STRING\<close>, a number and no text when it is \<open>NUMBER\<close>, and
  neither when it is one of the five punctuation types; no token has the type
  \<open>RETURN\<close>.
\<close>

theorem token_payloads:
  assumes "next_token junk s = (Inr (Some t), s')"
  shows "(type t = IDENTITY \<or> type t = STRING \<longrightarrow> text' t \<noteq> None \<and> number t = None)
    \<and> (type t = NUMBER \<longrightarrow> text' t = None \<and> number t \<noteq> None)
    \<and> (type t \<in> {OPEN_PAREN, CLOSE_PAREN, OPEN_CURLY, CLOSE_CURLY, SEMICOLON}
         \<longrightarrow> text' t = None \<and> number t = None)
    \<and> type t \<noteq> RETURN"
proof -
  let ?s1 = "skip_comments (trim_left s)"
  note f = next_token_Some [OF assms]
  define c where "c = bytes (source ?s1) ! gpos (source ?s1)"
  note eq = next_token_at [OF refl f(3) f(5) c_def refl, of junk]
  have m: "token_type_map c = Some k \<Longrightarrow>
      k \<in> {OPEN_PAREN, CLOSE_PAREN, OPEN_CURLY, CLOSE_CURLY, SEMICOLON}" for k
    by (auto simp: token_type_map_def split: if_splits)
  show ?thesis
    using assms eq m
    by (auto split: if_splits prod.splits sum.splits option.splits)
qed

theorem token_payloads_witness:
  "next_token [] (new_Lexer [''f'' \<mapsto> ''x1;''] ''f'') =
     (Inr (Some \<lparr>type = IDENTITY, text' = Some ''x1'', number = None,
                  location = \<lparr>file_path = ''f'', row = 0, col = 0\<rparr>\<rparr>),
      \<lparr>source_path = ''f'',
       source = \<lparr>bytes = ''x1;'', gpos = 2, eofbit = False, failbit = False\<rparr>,
       line_begin = 0, row = 0\<rparr>)
   \<and> Some ''x1'' \<noteq> None \<and> (None :: int option) = None"
proof -
  have h: "next_token [] (new_Lexer [''f'' \<mapsto> ''x1;''] ''f'') =
     (Inr (Some \<lparr>type = IDENTITY, text' = Some ''x1'', number = None,
                  location = \<lparr>file_path = ''f'', row = 0, col = 0\<rparr>\<rparr>),
      \<lparr>source_path = ''f'',
       source = \<lparr>bytes = ''x1;'', gpos = 2, eofbit = False, failbit = False\<rparr>,
       line_begin = 0, row = 0\<rparr>)"
    by code_simp
  show ?thesis using token_payloads [OF h] h by simp
qed

text \<open>
  C8. Scanning \<open>(){};\<close> yields the five punctuation tokens in order, on row 0, at
  columns 0 to 4, and then the empty optional.
\<close>

theorem punctuation_example:
  "main_loop junk (new_Lexer [path \<mapsto> ''(){};''] path) =
     ([\<lparr>type = OPEN_PAREN, text' = None, number = None,
        location = \<lparr>file_path = path, row = 0, col = 0\<rparr>\<rparr>,
       \<lparr>type = CLOSE_PAREN, text' = None, number = None,
        location = \<lparr>file_path = path, row = 0, col = 1\<rparr>\<rparr>,
       \<lparr>type = OPEN_CURLY, text' = None, number = None,
        location = \<lparr>file_path = path, row = 0, col = 2\<rparr>\<rparr>,
       \<lparr>type = CLOSE_CURLY, text' = None, number = None,
        location = \<lparr>file_path = path, row = 0, col = 3\<rparr>\<rparr>,
       \<lparr>type = SEMICOLON, text' = None, number = None,
        location = \<lparr>file_path = path, row = 0, col = 4\<rparr>\<rparr>], None)"
  by (simp add: new_Lexer_def open_file_def) code_simp

text \<open>
  C9. Scanning \<open>hello world\<close> between two double quotes yields one \<open>STRING\<close>
  token whose text is \<open>hello world\<close>: the bytes between the quotes as they are,
  without the quotes. (\<open>string_literal_verbatim\<close> is the same fact for every literal
  that fits the \<open>int\<close> size of its buffer.)
\<close>

theorem string_example:
  "main_loop junk (new_Lexer [path \<mapsto> [CHR 0x22] @ ''hello world'' @ [CHR 0x22]] path) =
     ([\<lparr>type = STRING, text' = Some ''hello world'', number = None,
        location = \<lparr>file_path = path, row = 0, col = 0\<rparr>\<rparr>], None)"
  by (simp add: new_Lexer_def open_file_def) code_simp

text \<open>
  C10. Two scans of the same file need not yield the same tokens. On the file that
  holds the single byte \<open>x\<close>, the loop over the identifier runs into the end of the
  file, \<open>tellg\<close> fails, \<open>n\<close> is 0, and \<open>get(buf, 0, ...)\<close> writes nothing into
  the one-byte buffer: the text of the token is whatever that buffer holds, which the
  bytes of the file do not determine. (By \<open>main_loop_junk\<close> the types and locations
  of the tokens, and the way the scan ends, are the same in both scans.)
\<close>

theorem unwritten_buffer_text:
  "main_loop junk (new_Lexer [path \<mapsto> ''x''] path) =
     ([\<lparr>type = IDENTITY, text' = Some junk, number = None,
        location = \<lparr>file_path = path, row = 0, col = 0\<rparr>\<rparr>], None)"
  by (simp add: new_Lexer_def open_file_def) code_simp

end
